theory Spec2Isabelle
  imports Main "HOL-Library.AList" "HOL-Library.Multiset"
begin

section \<open>Schemas\<close>

text \<open>
  A column descriptor carries a dtype, a collection of tags and a property mapping.
  A numpy dtype is represented by its name.
\<close>

type_synonym dtype = string

record column_schema =
  dtype :: dtype
  tags :: "string list"
  properties :: "(string \<times> string) list"

text \<open>
  A \<open>Schema\<close> wraps the insertion-ordered dictionary \<open>column_schemas\<close> from column name
  to descriptor: an association list whose keys are the column names.
\<close>

type_synonym schema = "(string \<times> column_schema) list"

definition column_names :: "schema \<Rightarrow> string list" where
  "column_names s = map fst s"

text \<open>
  Modelled from the spec: \<open>Schema.__add__\<close> (the class \<open>Schema\<close> is not among the
  sources). \<open>merge(a, b)\<close>: the columns of \<open>a\<close> united with those of \<open>b\<close>; for a name
  present in both, the descriptor of \<open>b\<close> replaces that of \<open>a\<close>. The columns of \<open>a\<close> keep
  their places, and the columns that only \<open>b\<close> has follow them.
\<close>

definition schema_add :: "schema \<Rightarrow> schema \<Rightarrow> schema" where
  "schema_add a b =
     map (\<lambda>(k, d). (k, case map_of b k of None \<Rightarrow> d | Some d' \<Rightarrow> d')) a
     @ filter (\<lambda>(k, d). k \<notin> set (column_names a)) b"

text \<open>
  Modelled from the spec: \<open>Schema.apply\<close> with a selector that is a collection of column
  names. \<open>project(schema, names)\<close> is \<open>{name: schema[name] for name in names if present}\<close>;
  requested names that are absent are dropped.
\<close>

definition schema_apply :: "schema \<Rightarrow> string list \<Rightarrow> schema" where
  "schema_apply s names =
     fold (\<lambda>k acc. case map_of s k of None \<Rightarrow> acc | Some d \<Rightarrow> AList.update k d acc) names []"

text \<open>
  Modelled from the spec: \<open>Schema.__eq__\<close>. Two schemas are equal when they hold the same
  columns with the same descriptors, whatever the order of insertion.
\<close>

definition schema_eq :: "schema \<Rightarrow> schema \<Rightarrow> bool" where
  "schema_eq a b \<longleftrightarrow>
     set (column_names a) = set (column_names b) \<and>
     list_all (\<lambda>k. map_of a k = map_of b k) (column_names a)"

section \<open>Nodes\<close>

text \<open>
  Modelled from the spec: the class \<open>Node\<close> is not among the sources. A node holds its
  ordered data-parents, its ordered dependency-parents, the schema-computation capability
  of its operator (a function from the combined input schema to the pair of input and
  output schema), its declared input and output column names, and its schema state, unset
  (\<open>None\<close>) until it is fitted. Nodes are objects compared by identity: they live in an
  arena (a list) and are referred to by their index.
\<close>

record node =
  parents :: "nat list"
  dependencies :: "nat list"
  op :: "schema \<Rightarrow> schema \<times> schema"
  input_columns :: "string list"
  output_columns :: "string list"
  input_schema :: "schema option"
  output_schema :: "schema option"

type_synonym store = "node list"

text \<open>Modelled from the spec: data-parents and dependency-parents combined.\<close>

definition parents_with_dependencies :: "node \<Rightarrow> nat list" where
  "parents_with_dependencies nd = parents nd @ dependencies nd"

text \<open>
  Modelled from the spec: \<open>iter_nodes\<close> is not among the sources. It is a traversal of
  the nodes reachable from the given ones through data-parents and dependency-parents that
  visits each reachable node exactly once: a work list, and the list of the nodes already
  visited, in the order of the visit. An index outside the arena stands for no object and
  is passed over.
\<close>

function iter_nodes_aux :: "store \<Rightarrow> nat list \<Rightarrow> nat list \<Rightarrow> nat list" where
  "iter_nodes_aux st [] seen = seen"
| "iter_nodes_aux st (n # queue) seen =
     (if n \<in> set seen \<or> length st \<le> n then iter_nodes_aux st queue seen
      else iter_nodes_aux st (parents_with_dependencies (st ! n) @ queue) (seen @ [n]))"
  by pat_completeness auto
termination
proof (relation "inv_image (finite_psubset <*lex*> less_than)
         (\<lambda>(st, queue, seen). ({..<length st} - set seen, length queue))")
  show "wf (inv_image (finite_psubset <*lex*> less_than)
         (\<lambda>(st, queue, seen). ({..<length st} - set seen, length queue)))"
    by (intro wf_inv_image wf_lex_prod wf_finite_psubset wf_less_than)
next
  fix st :: store and n queue seen
  assume "n \<in> set seen \<or> length st \<le> n"
  then show "((st, queue, seen), (st, n # queue, seen))
       \<in> inv_image (finite_psubset <*lex*> less_than)
           (\<lambda>(st, queue, seen). ({..<length st} - set seen, length queue))"
    by simp
next
  fix st :: store and n queue seen
  assume a: "\<not> (n \<in> set seen \<or> length st \<le> n)"
  have sub: "{..<length st} - set (seen @ [n]) \<subseteq> {..<length st} - set seen"
    by auto
  have mem: "n \<in> {..<length st} - set seen"
    using a by simp
  have nmem: "n \<notin> {..<length st} - set (seen @ [n])"
    by simp
  from sub mem nmem have "{..<length st} - set (seen @ [n]) \<subset> {..<length st} - set seen"
    by blast
  moreover have "finite ({..<length st} - set seen)"
    by simp
  ultimately have "({..<length st} - set (seen @ [n]), {..<length st} - set seen) \<in> finite_psubset"
    unfolding finite_psubset_def by blast
  then show "((st, parents_with_dependencies (st ! n) @ queue, seen @ [n]), (st, n # queue, seen))
       \<in> inv_image (finite_psubset <*lex*> less_than)
           (\<lambda>(st, queue, seen). ({..<length st} - set seen, length queue))"
    by simp
qed

definition iter_nodes :: "store \<Rightarrow> nat list \<Rightarrow> nat list" where
  "iter_nodes st ns = iter_nodes_aux st ns []"

section \<open>Graph\<close>

text \<open>
  The fields \<open>input_dtypes\<close> and \<open>output_dtypes\<close> of the class are set to \<open>None\<close> by the
  constructor and never touched again by the code at hand; they are left out.
\<close>

record graph =
  output_node :: nat
  graph_input_schema :: "schema option"
  graph_output_schema :: "schema option"

text \<open>
  \<open>_get_unique\<close>: the keys of the dictionary \<open>{x: x for x in cols}\<close>, which keeps every key
  at the place of its first insertion.
\<close>

definition get_unique :: "'a list \<Rightarrow> 'a list" where
  "get_unique cols = fold (\<lambda>x keys. if x \<in> set keys then keys else keys @ [x]) cols []"

text \<open>
  \<open>_get_schemaless_nodes\<close> returns a Python set; it is represented by the duplicate-free
  list of its elements.
\<close>

definition get_schemaless_nodes :: "store \<Rightarrow> nat list \<Rightarrow> nat list" where
  "get_schemaless_nodes st ns = filter (\<lambda>n. input_schema (st ! n) = None) (iter_nodes st ns)"

text \<open>The exceptions raised by the code at hand, and those of its collaborators.\<close>

datatype error =
    RuntimeError
  | ValueError "string list" "string list"
  | AttributeError
  | OSError string

text \<open>
  Modelled from the spec: \<open>Node.compute_schemas\<close>. The capability of the node's operator
  is applied to the schema handed over, and the node's input and output schema are set
  together from the result. No other node is written.
\<close>

definition compute_schemas :: "nat \<Rightarrow> schema \<Rightarrow> store \<Rightarrow> store" where
  "compute_schemas n sch st =
     st[n := (st ! n)\<lparr>input_schema := Some (fst (op (st ! n) sch)),
                     output_schema := Some (snd (op (st ! n) sch))\<rparr>]"

text \<open>
  The state of \<open>fit_schema\<close>: the arena of nodes, and the record of the calls of
  \<open>compute_schemas\<close> made so far, each with the node and the schema it received, in the
  order of the calls.
\<close>

type_synonym fit_state = "store \<times> (nat \<times> schema) list"

text \<open>
  The body of the loop over \<open>current_phase\<close>. The test \<open>if parent.output_schema\<close> leaves
  out the parents whose output schema is unset; \<open>sum(\<dots>, Schema())\<close> adds the schemas from
  left to right, starting from the empty schema.
\<close>

definition fit_node :: "schema \<Rightarrow> nat \<Rightarrow> fit_state \<Rightarrow> fit_state" where
  "fit_node root_schema n = (\<lambda>(st, calls).
     if parents (st ! n) = [] then
       (compute_schemas n root_schema st, calls @ [(n, root_schema)])
     else
       let parent_schemas = List.map_filter (\<lambda>p. output_schema (st ! p)) (parents (st ! n));
           combined_schema = schema_add root_schema (foldl schema_add [] parent_schemas)
       in (compute_schemas n combined_schema st, calls @ [(n, combined_schema)]))"

text \<open>
  The \<open>while\<close> loop of \<open>fit_schema\<close>. The dictionary \<open>schemaless_nodes\<close> is an association
  list from each pending node to the set of nodes it still waits for.
\<close>

function fit_loop :: "schema \<Rightarrow> (nat \<times> nat list) list \<Rightarrow> fit_state \<Rightarrow> error + fit_state" where
  "fit_loop root_schema schemaless_nodes s =
     (if schemaless_nodes = [] then Inr s
      else
        let current_phase =
              map fst (filter (\<lambda>(node, deps). deps = []) schemaless_nodes)
        in if current_phase = [] then Inl RuntimeError
           else fit_loop root_schema
                  (map (\<lambda>(node, deps).
                          (node, filter (\<lambda>d. d \<notin> set current_phase) deps))
                     (filter (\<lambda>(node, deps). node \<notin> set current_phase) schemaless_nodes))
                  (fold (fit_node root_schema) current_phase s))"
  by pat_completeness auto
termination
proof (relation "measure (\<lambda>(root_schema, schemaless_nodes, s). length schemaless_nodes)")
  show "wf (measure (\<lambda>(root_schema, schemaless_nodes, s). length schemaless_nodes))"
    by (rule wf_measure)
next
  fix root_schema :: schema and schemaless_nodes :: "(nat \<times> nat list) list"
    and s :: fit_state and current_phase
  assume ne: "schemaless_nodes \<noteq> []"
    and cp: "current_phase =
      map fst (filter (\<lambda>(node, deps). deps = []) schemaless_nodes)"
    and nph: "current_phase \<noteq> []"
  from nph obtain n where n: "n \<in> set current_phase"
    by (cases current_phase) auto
  with cp obtain deps where nd: "(n, deps) \<in> set schemaless_nodes"
    by auto
  have "\<not> (case (n, deps) of (node, deps) \<Rightarrow> node \<notin> set current_phase)"
    using n by simp
  with nd have "length (filter (\<lambda>(node, deps). node \<notin> set current_phase) schemaless_nodes)
      < length schemaless_nodes"
    by (rule length_filter_less)
  then show "((root_schema,
        map (\<lambda>(node, deps). (node, filter (\<lambda>d. d \<notin> set current_phase) deps))
          (filter (\<lambda>(node, deps). node \<notin> set current_phase) schemaless_nodes),
        fold (fit_node root_schema) current_phase s),
       (root_schema, schemaless_nodes, s))
      \<in> measure (\<lambda>(root_schema, schemaless_nodes, s). length schemaless_nodes)"
    by simp
qed

text \<open>
  \<open>Graph._input_columns\<close>. The difference of two Python sets has no order of its own; it
  is listed here in the order of the node's input columns.
\<close>

definition Graph_input_columns :: "store \<Rightarrow> graph \<Rightarrow> string list" where
  "Graph_input_columns st g =
     get_unique (concat (map
       (\<lambda>n. let upstream_output_cols =
                 get_unique (concat (map (\<lambda>u. output_columns (st ! u))
                                       (parents_with_dependencies (st ! n))))
            in filter (\<lambda>c. c \<notin> set upstream_output_cols) (get_unique (input_columns (st ! n))))
       (iter_nodes st [output_node g])))"

text \<open>
  \<open>Graph.fit_schema\<close>. The pending nodes come out of a Python set, whose order of
  iteration is not fixed by the code (nodes hash by identity): \<open>rank\<close> stands for that
  order, the set being listed by increasing rank. The list \<open>processed_nodes\<close> is written
  but never read, and is left out. The result holds the arena, the graph and the record
  of the calls of \<open>compute_schemas\<close>.
\<close>

definition fit_schema ::
  "(nat \<Rightarrow> nat) \<Rightarrow> schema \<Rightarrow> store \<Rightarrow> graph \<Rightarrow> error + (store \<times> graph \<times> (nat \<times> schema) list)" where
  "fit_schema rank root_schema st g =
     (let schemaless_nodes =
            map (\<lambda>node. (node, get_schemaless_nodes st (parents_with_dependencies (st ! node))))
              (sort_key rank (get_schemaless_nodes st [output_node g]))
      in case fit_loop root_schema schemaless_nodes (st, []) of
           Inl e \<Rightarrow> Inl e
         | Inr (st', calls) \<Rightarrow>
             Inr (st',
                  g\<lparr>graph_input_schema :=
                       Some (filter (\<lambda>(name, schema). name \<in> set (Graph_input_columns st' g))
                               root_schema),
                    graph_output_schema := output_schema (st' ! output_node g)\<rparr>,
                  calls))"

text \<open>\<open>Graph._zero_output_schemas\<close>.\<close>

definition zero_output_schemas :: "store \<Rightarrow> graph \<Rightarrow> store" where
  "zero_output_schemas st g =
     fold (\<lambda>n s. s[n := (s ! n)\<lparr>output_schema := None, input_schema := None\<rparr>])
       (iter_nodes st [output_node g]) st"

section \<open>WorkflowOp\<close>

text \<open>
  Modelled from the spec: the class \<open>Workflow\<close> is not among the sources. Of a workflow
  the code at hand reads the fitted graph, the property \<open>output_schema\<close> (the output schema
  of that graph) and the dictionary \<open>output_dtypes\<close> from column name to dtype.
\<close>

record workflow =
  workflow_graph :: graph
  output_dtypes :: "(string \<times> dtype) list"

definition workflow_output_schema :: "workflow \<Rightarrow> schema option" where
  "workflow_output_schema w = graph_output_schema (workflow_graph w)"

record workflow_op =
  workflow :: workflow
  sparse_max :: "(string \<times> nat) list"
  name :: string
  max_batch_size :: "nat option"
  label_columns :: "string list"
  cats :: "string list"
  conts :: "string list"

definition export_name :: "workflow_op \<Rightarrow> string" where
  "export_name self = name self"

text \<open>
  \<open>WorkflowOp.compute_output_schema\<close>. The method assigns nothing; the operator is
  returned next to the result, as the code leaves it. The message of the \<open>ValueError\<close>
  is built from the column names of the request schema and from those of the input schema
  of the workflow's graph, which the error carries here. On a graph that was never fitted
  the input schema is \<open>None\<close>: the comparison fails and the message cannot be built.
\<close>

definition compute_output_schema ::
  "workflow_op \<Rightarrow> schema \<Rightarrow> string list \<Rightarrow> (error + schema option) \<times> workflow_op" where
  "compute_output_schema self request_schema col_selector =
     (let expected_input = schema_apply request_schema col_selector
      in case graph_input_schema (workflow_graph (workflow self)) of
           None \<Rightarrow> (Inl AttributeError, self)
         | Some graph_schema \<Rightarrow>
             if \<not> schema_eq expected_input graph_schema
             then (Inl (ValueError (column_names request_schema) (column_names graph_schema)), self)
             else (Inr (workflow_output_schema (workflow self)), self))"

text \<open>
  An input column of the consumer's configuration: its name and its Triton data type.
\<close>

record model_input =
  column_name :: string
  data_type :: nat

text \<open>
  A call of \<open>warnings.warn\<close>: the dtype the consumer expects, the column, and the dtype the
  workflow produces.
\<close>

datatype warning = Warning dtype string dtype

text \<open>
  What \<open>export\<close> takes from outside the code at hand: the file system (\<open>mkdir\<close>,
  \<open>Workflow.save\<close>), and the functions \<open>_remove_columns\<close>, \<open>_triton_datatype_to_dtype\<close>
  and \<open>_generate_nvtabular_config\<close> of the module \<open>ensemble\<close>, which is not among the
  sources. They are parameters of the model.
\<close>

record ('fs, 'cfg) environment =
  mkdir :: "string list \<Rightarrow> 'fs \<Rightarrow> error + 'fs"
  remove_columns :: "workflow \<Rightarrow> string list \<Rightarrow> workflow"
  triton_datatype_to_dtype :: "nat \<Rightarrow> dtype"
  str :: "nat \<Rightarrow> string"
  save :: "workflow \<Rightarrow> string list \<Rightarrow> 'fs \<Rightarrow> error + 'fs"
  generate_nvtabular_config ::
    "workflow \<Rightarrow> string \<Rightarrow> string list \<Rightarrow> workflow_op \<Rightarrow> 'fs \<Rightarrow> error + ('cfg \<times> 'fs)"

text \<open>
  The body of the loop over \<open>consumer_config.input\<close>, on the dictionary \<open>output_dtypes\<close>
  and the warnings emitted so far. \<open>dict.get\<close> yields \<open>None\<close> for a column the workflow
  does not produce; a dtype is never falsy.
\<close>

definition override_dtype ::
  "(nat \<Rightarrow> dtype) \<Rightarrow> model_input \<Rightarrow> (string \<times> dtype) list \<times> warning list
     \<Rightarrow> (string \<times> dtype) list \<times> warning list" where
  "override_dtype to_dtype column = (\<lambda>(dtypes, warnings).
     let tf_dtype = to_dtype (data_type column);
         nvt_dtype = map_of dtypes (column_name column)
     in case nvt_dtype of
          None \<Rightarrow> (dtypes, warnings)
        | Some d \<Rightarrow>
            if d \<noteq> tf_dtype
            then (AList.update (column_name column) tf_dtype dtypes,
                  warnings @ [Warning tf_dtype (column_name column) d])
            else (dtypes, warnings))"

definition override_dtypes ::
  "(nat \<Rightarrow> dtype) \<Rightarrow> model_input list option \<Rightarrow> (string \<times> dtype) list
     \<Rightarrow> (string \<times> dtype) list \<times> warning list" where
  "override_dtypes to_dtype consumer_config dtypes =
     (case consumer_config of
        None \<Rightarrow> (dtypes, [])
      | Some inputs \<Rightarrow> fold (override_dtype to_dtype) inputs (dtypes, []))"

text \<open>
  \<open>WorkflowOp.export\<close>. A path is the list of its components. The result holds the
  configuration or the error, the file system, and the warnings emitted.
\<close>

definition export ::
  "('fs, 'cfg) environment \<Rightarrow> workflow_op \<Rightarrow> string list \<Rightarrow> model_input list option \<Rightarrow> nat
     \<Rightarrow> 'fs \<Rightarrow> (error + 'cfg) \<times> 'fs \<times> warning list" where
  "export env self path consumer_config version fs =
     (let new_dir_path = path @ [export_name self]
      in case mkdir env new_dir_path fs of
           Inl e \<Rightarrow> (Inl e, fs, [])
         | Inr fs1 \<Rightarrow>
             let pruned = remove_columns env (workflow self) (label_columns self);
                 (dtypes, warnings) =
                   override_dtypes (triton_datatype_to_dtype env) consumer_config
                     (output_dtypes pruned);
                 exported = pruned\<lparr>output_dtypes := dtypes\<rparr>;
                 export_path = new_dir_path @ [str env version, export_name self]
             in case save env exported export_path fs1 of
                  Inl e \<Rightarrow> (Inl e, fs1, warnings)
                | Inr fs2 \<Rightarrow>
                    (case generate_nvtabular_config env exported (export_name self)
                            new_dir_path self fs2 of
                       Inl e \<Rightarrow> (Inl e, fs2, warnings)
                     | Inr (config, fs3) \<Rightarrow> (Inr config, fs3, warnings)))"

section \<open>Notions of the specification\<close>

text \<open>
  The dtype the consumer's configuration expects for a column: that of its declaration of
  the column (the last one, should the column be declared more than once).
\<close>

definition expected_dtype :: "(nat \<Rightarrow> dtype) \<Rightarrow> model_input list \<Rightarrow> string \<Rightarrow> dtype option" where
  "expected_dtype to_dtype inputs k =
     map_of (rev (map (\<lambda>c. (column_name c, to_dtype (data_type c))) inputs)) k"

text \<open>
  The edges of the node graph, from a node to its data-parents and dependency-parents, and
  the nodes reachable from a list of nodes through these edges.
\<close>

definition edges :: "store \<Rightarrow> (nat \<times> nat) set" where
  "edges st = {(x, y). x < length st \<and> y < length st \<and> y \<in> set (parents_with_dependencies (st ! x))}"

definition reachable :: "store \<Rightarrow> nat list \<Rightarrow> nat set" where
  "reachable st ns = {y. \<exists>x \<in> set ns. x < length st \<and> (x, y) \<in> (edges st)\<^sup>*}"

text \<open>
  A node graph is acyclic when no node reachable from the output node is reachable from
  its own parents.
\<close>

definition acyclic_graph :: "store \<Rightarrow> graph \<Rightarrow> bool" where
  "acyclic_graph st g \<longleftrightarrow>
     (\<forall>n \<in> set (iter_nodes st [output_node g]).
        n \<notin> set (iter_nodes st (parents_with_dependencies (st ! n))))"

text \<open>De-duplication that preserves the order in which the elements are first seen.\<close>

function dedup_first_seen :: "'a list \<Rightarrow> 'a list" where
  "dedup_first_seen [] = []"
| "dedup_first_seen (x # xs) = x # dedup_first_seen (filter (\<lambda>y. y \<noteq> x) xs)"
  by pat_completeness auto
termination
  by (relation "measure length") (simp_all add: less_Suc_eq_le)

text \<open>
  The schema a node is fitted with: the root schema for a node without data-parents,
  otherwise the root schema with the output schemas of the data-parents merged over it, in
  the order of the parent list.
\<close>

definition combined_schema :: "schema \<Rightarrow> store \<Rightarrow> nat \<Rightarrow> schema" where
  "combined_schema root_schema st n =
     (if parents (st ! n) = [] then root_schema
      else schema_add root_schema
             (foldl schema_add [] (List.map_filter (\<lambda>p. output_schema (st ! p)) (parents (st ! n)))))"

text \<open>
  The descriptor of a column in the right-biased merge of a list of schemas: that of the
  last schema of the list that has the column.
\<close>

definition last_descriptor :: "schema list \<Rightarrow> string \<Rightarrow> column_schema option" where
  "last_descriptor ss k =
     (case filter (\<lambda>s. map_of s k \<noteq> None) (rev ss) of [] \<Rightarrow> None | s # _ \<Rightarrow> map_of s k)"

text \<open>
  A column is an external input of the graph when some node reachable from the output
  node requires it and none of the parents of that node produces it.
\<close>

definition external_input :: "store \<Rightarrow> graph \<Rightarrow> string \<Rightarrow> bool" where
  "external_input st g k \<longleftrightarrow>
     (\<exists>n \<in> reachable st [output_node g].
        k \<in> set (input_columns (st ! n)) \<and>
        (\<forall>u \<in> set (parents_with_dependencies (st ! n)). k \<notin> set (output_columns (st ! u))))"

text \<open>
  The node \<open>n\<close> once fitted in the arena \<open>st\<close>: its operator applied to the schema it
  is fitted with.
\<close>

definition fit_result :: "schema \<Rightarrow> store \<Rightarrow> nat \<Rightarrow> node" where
  "fit_result root_schema st n =
     (st ! n)\<lparr>input_schema := Some (fst (op (st ! n) (combined_schema root_schema st n))),
              output_schema := Some (snd (op (st ! n) (combined_schema root_schema st n)))\<rparr>"

text \<open>A node without its schema state: what fitting never changes.\<close>

definition structure_of :: "node \<Rightarrow> node" where
  "structure_of nd = nd\<lparr>input_schema := None, output_schema := None\<rparr>"

text \<open>
  One turn of the loop of \<open>fit_schema\<close>: the current phase, and the dictionary of the
  pending nodes once the phase is removed from it.
\<close>

definition phase_of :: "(nat \<times> nat list) list \<Rightarrow> nat list" where
  "phase_of pending = map fst (filter (\<lambda>(node, deps). deps = []) pending)"

definition remaining :: "(nat \<times> nat list) list \<Rightarrow> (nat \<times> nat list) list" where
  "remaining pending =
     map (\<lambda>(node, deps). (node, filter (\<lambda>d. d \<notin> set (phase_of pending)) deps))
       (filter (\<lambda>(node, deps). node \<notin> set (phase_of pending)) pending)"

text \<open>
  What the loop keeps true of the dictionary of pending nodes: its keys are distinct nodes
  of the arena, and a pending data-parent of a pending node is in the blocking set of that
  node.
\<close>

definition loop_inv :: "store \<Rightarrow> (nat \<times> nat list) list \<Rightarrow> bool" where
  "loop_inv st pending \<longleftrightarrow>
     distinct (map fst pending) \<and>
     (\<forall>(n, deps) \<in> set pending.
        n < length st \<and> (\<forall>p \<in> set (parents (st ! n)). p \<in> fst ` set pending \<longrightarrow> p \<in> set deps))"

text \<open>
  The dictionary \<open>schemaless_nodes\<close> that \<open>fit_schema\<close> builds before its loop.
\<close>

definition initial_pending :: "(nat \<Rightarrow> nat) \<Rightarrow> store \<Rightarrow> graph \<Rightarrow> (nat \<times> nat list) list" where
  "initial_pending rank st g =
     map (\<lambda>node. (node, get_schemaless_nodes st (parents_with_dependencies (st ! node))))
       (sort_key rank (get_schemaless_nodes st [output_node g]))"

text \<open>
  Every blocking set holds pending nodes only, taken from the nodes \<open>R n\<close> upstream of
  its node.
\<close>

definition blocked_within :: "(nat \<Rightarrow> nat set) \<Rightarrow> (nat \<times> nat list) list \<Rightarrow> bool" where
  "blocked_within R pending \<longleftrightarrow>
     (\<forall>(n, deps) \<in> set pending. set deps \<subseteq> fst ` set pending \<inter> R n)"

section \<open>Example values\<close>

definition example_column :: "dtype \<Rightarrow> column_schema" where
  "example_column t = \<lparr>dtype = t, tags = [], properties = []\<rparr>"

definition example_workflow_op :: workflow_op where
  "example_workflow_op =
     \<lparr>workflow =
        \<lparr>workflow_graph =
           \<lparr>output_node = 0,
            graph_input_schema = Some [(''age'', example_column ''int32'')],
            graph_output_schema = Some [(''age'', example_column ''int32''),
                                        (''age_bucket'', example_column ''int64'')]\<rparr>,
         output_dtypes = [(''age'', ''int32''), (''age_bucket'', ''int64'')]\<rparr>,
      sparse_max = [], name = ''workflowop'', max_batch_size = None,
      label_columns = [], cats = [], conts = []\<rparr>"

definition example_environment :: "(nat, (string \<times> dtype) list) environment" where
  "example_environment =
     \<lparr>mkdir = (\<lambda>p fs. Inr (Suc fs)),
      remove_columns = (\<lambda>w labels.
         w\<lparr>output_dtypes := filter (\<lambda>(k, t). k \<notin> set labels) (output_dtypes w)\<rparr>),
      triton_datatype_to_dtype = (\<lambda>n. if n = 11 then ''float32'' else ''int32''),
      str = (\<lambda>n. ''1''),
      save = (\<lambda>w p fs. Inr (Suc fs)),
      generate_nvtabular_config = (\<lambda>w n p self fs. Inr (output_dtypes w, Suc fs))\<rparr>"

section \<open>Properties of the traversal\<close>

subsection \<open>De-duplication\<close>

lemma get_unique_fold:
  "fold (\<lambda>x keys. if x \<in> set keys then keys else keys @ [x]) xs acc
     = acc @ dedup_first_seen (filter (\<lambda>y. y \<notin> set acc) xs)"
proof (induction xs arbitrary: acc)
  case Nil
  then show ?case by simp
next
  case (Cons x xs)
  show ?case
  proof (cases "x \<in> set acc")
    case True
    then show ?thesis using Cons.IH [of acc] by simp
  next
    case False
    have "filter (\<lambda>y. y \<notin> set (acc @ [x])) xs = filter (\<lambda>y. y \<noteq> x) (filter (\<lambda>y. y \<notin> set acc) xs)"
      by (induction xs) auto
    with False show ?thesis using Cons.IH [of "acc @ [x]"] by simp
  qed
qed

lemma get_unique_dedup: "get_unique xs = dedup_first_seen xs"
  using get_unique_fold [of xs "[]"] by (simp add: get_unique_def)

lemma set_dedup_first_seen: "set (dedup_first_seen xs) = set xs"
proof (induction xs rule: dedup_first_seen.induct)
  case 1
  then show ?case by simp
next
  case (2 x xs)
  then show ?case by auto
qed

lemma distinct_dedup_first_seen: "distinct (dedup_first_seen xs)"
proof (induction xs rule: dedup_first_seen.induct)
  case 1
  then show ?case by simp
next
  case (2 x xs)
  then show ?case by (simp add: set_dedup_first_seen)
qed

lemma set_get_unique: "set (get_unique xs) = set xs"
  by (simp add: get_unique_dedup set_dedup_first_seen)

lemma distinct_get_unique: "distinct (get_unique xs)"
  by (simp add: get_unique_dedup distinct_dedup_first_seen)

subsection \<open>The traversal visits the reachable nodes, each once\<close>

lemma iter_nodes_aux_seen: "set seen \<subseteq> set (iter_nodes_aux st queue seen)"
  by (induction st queue seen rule: iter_nodes_aux.induct) auto

lemma iter_nodes_aux_distinct:
  "distinct seen \<Longrightarrow> distinct (iter_nodes_aux st queue seen)"
  by (induction st queue seen rule: iter_nodes_aux.induct) auto

lemma iter_nodes_aux_range:
  "\<forall>n \<in> set seen. n < length st \<Longrightarrow> \<forall>n \<in> set (iter_nodes_aux st queue seen). n < length st"
  by (induction st queue seen rule: iter_nodes_aux.induct) auto

lemma reachable_Nil: "reachable st [] = {}"
  by (simp add: reachable_def)

lemma reachable_Cons:
  "reachable st (n # ns) = (if n < length st then {y. (n, y) \<in> (edges st)\<^sup>*} else {}) \<union> reachable st ns"
  by (auto simp: reachable_def)

lemma reachable_append: "reachable st (xs @ ys) = reachable st xs \<union> reachable st ys"
  by (auto simp: reachable_def)

lemma reachable_step:
  assumes "n < length st"
  shows "reachable st (parents_with_dependencies (st ! n)) \<subseteq> {y. (n, y) \<in> (edges st)\<^sup>*}"
proof
  fix y
  assume "y \<in> reachable st (parents_with_dependencies (st ! n))"
  then obtain x where x: "x \<in> set (parents_with_dependencies (st ! n))" "x < length st"
      "(x, y) \<in> (edges st)\<^sup>*"
    by (auto simp: reachable_def)
  with assms have "(n, x) \<in> edges st"
    by (simp add: edges_def)
  with x(3) show "y \<in> {y. (n, y) \<in> (edges st)\<^sup>*}"
    by (simp add: converse_rtrancl_into_rtrancl)
qed

lemma iter_nodes_aux_sound:
  "set (iter_nodes_aux st queue seen) \<subseteq> set seen \<union> reachable st queue"
proof (induction st queue seen rule: iter_nodes_aux.induct)
  case (1 st seen)
  then show ?case by simp
next
  case (2 st n queue seen)
  show ?case
  proof (cases "n \<in> set seen \<or> length st \<le> n")
    case True
    with 2 show ?thesis by (auto simp: reachable_Cons)
  next
    case False
    then have n: "n < length st" by simp
    from False 2
    have "set (iter_nodes_aux st (n # queue) seen)
        \<subseteq> set (seen @ [n]) \<union> reachable st (parents_with_dependencies (st ! n) @ queue)"
      by simp
    also have "\<dots> \<subseteq> set seen \<union> reachable st (n # queue)"
      using reachable_step [OF n] n by (auto simp: reachable_append reachable_Cons)
    finally show ?thesis .
  qed
qed

lemma iter_nodes_aux_closed:
  "edges st `` set seen \<subseteq> set seen \<union> set queue \<Longrightarrow>
     edges st `` set (iter_nodes_aux st queue seen) \<subseteq> set (iter_nodes_aux st queue seen)
     \<and> {n \<in> set queue. n < length st} \<subseteq> set (iter_nodes_aux st queue seen)"
proof (induction st queue seen rule: iter_nodes_aux.induct)
  case (1 st seen)
  then show ?case by simp
next
  case (2 st n queue seen)
  show ?case
  proof (cases "n \<in> set seen \<or> length st \<le> n")
    case True
    have "edges st `` set seen \<subseteq> set seen \<union> set queue"
    proof
      fix y
      assume y: "y \<in> edges st `` set seen"
      then have "y < length st" by (auto simp: edges_def)
      with y "2.prems" True show "y \<in> set seen \<union> set queue" by auto
    qed
    from "2.IH"(1) [OF True this] True show ?thesis
      using iter_nodes_aux_seen [of seen st queue] by auto
  next
    case False
    have "edges st `` set (seen @ [n]) \<subseteq> set (seen @ [n]) \<union> set (parents_with_dependencies (st ! n) @ queue)"
      using "2.prems" by (auto simp: edges_def)
    from "2.IH"(2) [OF False this] False show ?thesis
      using iter_nodes_aux_seen [of "seen @ [n]" st "parents_with_dependencies (st ! n) @ queue"]
      by auto
  qed
qed

lemma set_iter_nodes: "set (iter_nodes st ns) = reachable st ns"
proof
  show "set (iter_nodes st ns) \<subseteq> reachable st ns"
    using iter_nodes_aux_sound [of st ns "[]"] by (simp add: iter_nodes_def)
next
  have cl: "edges st `` set (iter_nodes st ns) \<subseteq> set (iter_nodes st ns)"
    and roots: "{n \<in> set ns. n < length st} \<subseteq> set (iter_nodes st ns)"
    using iter_nodes_aux_closed [of st "[]" ns] by (simp_all add: iter_nodes_def)
  show "reachable st ns \<subseteq> set (iter_nodes st ns)"
  proof
    fix y
    assume "y \<in> reachable st ns"
    then obtain x where x: "x \<in> set ns" "x < length st" "(x, y) \<in> (edges st)\<^sup>*"
      by (auto simp: reachable_def)
    from x(3) show "y \<in> set (iter_nodes st ns)"
    proof (induction rule: rtrancl_induct)
      case base
      from x(1,2) roots show ?case by auto
    next
      case (step y z)
      with cl show ?case by auto
    qed
  qed
qed

lemma distinct_iter_nodes: "distinct (iter_nodes st ns)"
  by (simp add: iter_nodes_def iter_nodes_aux_distinct)

lemma iter_nodes_range: "n \<in> set (iter_nodes st ns) \<Longrightarrow> n < length st"
  using iter_nodes_aux_range [of "[]" st ns] by (simp add: iter_nodes_def)

lemma reachable_range: "n \<in> reachable st ns \<Longrightarrow> n < length st"
  using iter_nodes_range [of n st ns] by (simp add: set_iter_nodes)

lemma reachable_parent:
  "n \<in> reachable st ns \<Longrightarrow> p \<in> set (parents_with_dependencies (st ! n)) \<Longrightarrow> p < length st \<Longrightarrow>
     p \<in> reachable st ns"
proof -
  assume n: "n \<in> reachable st ns" and p: "p \<in> set (parents_with_dependencies (st ! n))" "p < length st"
  from n have "n < length st" by (rule reachable_range)
  with p have "(n, p) \<in> edges st" by (simp add: edges_def)
  with n show ?thesis
    by (auto simp: reachable_def intro: rtrancl_into_rtrancl)
qed

lemma reachable_root: "n \<in> set ns \<Longrightarrow> n < length st \<Longrightarrow> n \<in> reachable st ns"
  by (auto simp: reachable_def)

lemma reachable_trans:
  assumes "m \<in> reachable st (parents_with_dependencies (st ! n))"
  shows "reachable st (parents_with_dependencies (st ! m))
      \<subseteq> reachable st (parents_with_dependencies (st ! n))"
proof
  fix y
  assume "y \<in> reachable st (parents_with_dependencies (st ! m))"
  then obtain q where q: "q \<in> set (parents_with_dependencies (st ! m))" "q < length st"
      "(q, y) \<in> (edges st)\<^sup>*"
    by (auto simp: reachable_def)
  from assms have "q \<in> reachable st (parents_with_dependencies (st ! n))"
    using q(1,2) by (rule reachable_parent)
  then obtain p where p: "p \<in> set (parents_with_dependencies (st ! n))" "p < length st"
      "(p, q) \<in> (edges st)\<^sup>*"
    by (auto simp: reachable_def)
  from p(3) q(3) have "(p, y) \<in> (edges st)\<^sup>*" by (rule rtrancl_trans)
  with p(1,2) show "y \<in> reachable st (parents_with_dependencies (st ! n))"
    by (auto simp: reachable_def)
qed

lemma iter_nodes_aux_cong:
  "length st' = length st \<Longrightarrow>
   \<forall>n < length st. parents_with_dependencies (st' ! n) = parents_with_dependencies (st ! n) \<Longrightarrow>
     iter_nodes_aux st' queue seen = iter_nodes_aux st queue seen"
proof (induction st queue seen rule: iter_nodes_aux.induct)
  case (1 st seen)
  then show ?case by simp
next
  case (2 st n queue seen)
  show ?case
  proof (cases "n \<in> set seen \<or> length st \<le> n")
    case True
    with 2 show ?thesis by simp
  next
    case False
    with "2.prems" have "parents_with_dependencies (st' ! n) = parents_with_dependencies (st ! n)"
      by simp
    with False 2 show ?thesis by simp
  qed
qed

lemma iter_nodes_cong:
  "length st' = length st \<Longrightarrow>
   \<forall>n < length st. parents_with_dependencies (st' ! n) = parents_with_dependencies (st ! n) \<Longrightarrow>
     iter_nodes st' ns = iter_nodes st ns"
  unfolding iter_nodes_def by (rule iter_nodes_aux_cong)

section \<open>Properties of the wavefront loop\<close>

declare fit_loop.simps [simp del]

lemma fit_node_eq:
  "fit_node root n (st, calls) = (st[n := fit_result root st n], calls @ [(n, combined_schema root st n)])"
  by (simp add: fit_node_def compute_schemas_def combined_schema_def fit_result_def Let_def)

lemma structure_of_fit_result [simp]: "structure_of (fit_result root st n) = structure_of (st ! n)"
  by (simp add: structure_of_def fit_result_def)

lemma structure_of_fields:
  "structure_of a = structure_of b \<Longrightarrow>
     parents a = parents b \<and> dependencies a = dependencies b \<and> op a = op b \<and>
     input_columns a = input_columns b \<and> output_columns a = output_columns b"
proof -
  assume eq: "structure_of a = structure_of b"
  have "parents a = parents (structure_of a)" "dependencies a = dependencies (structure_of a)"
    "op a = op (structure_of a)" "input_columns a = input_columns (structure_of a)"
    "output_columns a = output_columns (structure_of a)"
    by (simp_all add: structure_of_def)
  moreover have "parents b = parents (structure_of b)" "dependencies b = dependencies (structure_of b)"
    "op b = op (structure_of b)" "input_columns b = input_columns (structure_of b)"
    "output_columns b = output_columns (structure_of b)"
    by (simp_all add: structure_of_def)
  ultimately show ?thesis using eq by simp
qed

lemma structure_of_pwd:
  "structure_of a = structure_of b \<Longrightarrow> parents_with_dependencies a = parents_with_dependencies b"
  using structure_of_fields [of a b] by (simp add: parents_with_dependencies_def)

lemma map_filter_cong_set:
  "(\<And>x. x \<in> set xs \<Longrightarrow> f x = g x) \<Longrightarrow> List.map_filter f xs = List.map_filter g xs"
proof (induction xs)
  case Nil
  then show ?case by (simp add: List.map_filter_simps)
next
  case (Cons a xs)
  have "List.map_filter f xs = List.map_filter g xs"
    by (rule Cons.IH) (simp add: Cons.prems)
  moreover have "f a = g a"
    by (simp add: Cons.prems)
  ultimately show ?case
    by (simp add: List.map_filter_simps split: option.splits)
qed

lemma combined_schema_cong:
  assumes "parents (st' ! n) = parents (st ! n)"
    and "\<And>p. p \<in> set (parents (st ! n)) \<Longrightarrow> output_schema (st' ! p) = output_schema (st ! p)"
  shows "combined_schema root st' n = combined_schema root st n"
proof -
  have "List.map_filter (\<lambda>p. output_schema (st' ! p)) (parents (st ! n))
      = List.map_filter (\<lambda>p. output_schema (st ! p)) (parents (st ! n))"
    by (rule map_filter_cong_set) (rule assms(2))
  with assms(1) show ?thesis
    by (simp add: combined_schema_def)
qed

lemma fit_result_cong:
  assumes "st' ! n = st ! n \<or> st' ! n = fit_result root st n"
    and "combined_schema root st' n = combined_schema root st n"
  shows "fit_result root st' n = fit_result root st n"
  using assms by (auto simp: fit_result_def)

lemma parents_fit_result [simp]: "parents (fit_result root st n) = parents (st ! n)"
  by (simp add: fit_result_def)

lemma fold_fit_node:
  assumes "\<forall>n \<in> set ph. n < length st \<and> (\<forall>p \<in> set (parents (st ! n)). p \<notin> set ph)"
  shows "\<exists>st'. fold (fit_node root) ph (st, calls)
             = (st', calls @ map (\<lambda>n. (n, combined_schema root st n)) ph)
           \<and> length st' = length st
           \<and> (\<forall>i. i \<notin> set ph \<longrightarrow> st' ! i = st ! i)
           \<and> (\<forall>i \<in> set ph. st' ! i = fit_result root st i)"
  using assms
proof (induction ph arbitrary: st calls)
  case Nil
  show ?case by simp
next
  case (Cons x xs)
  define st1 where "st1 = st[x := fit_result root st x]"
  have x: "x < length st"
    using Cons.prems by simp
  have len1: "length st1 = length st"
    by (simp add: st1_def)
  have at_x: "st1 ! x = fit_result root st x"
    using x by (simp add: st1_def)
  have at_other: "st1 ! i = st ! i" if "i \<noteq> x" for i
    using that by (simp add: st1_def)
  have par: "parents (st1 ! n) = parents (st ! n)" for n
    by (cases "n = x") (simp_all add: at_x at_other)
  have out: "st1 ! p = st ! p" if "n \<in> set (x # xs)" "p \<in> set (parents (st ! n))" for n p
  proof -
    from Cons.prems that have "p \<notin> set (x # xs)" by blast
    then have "p \<noteq> x" by simp
    then show ?thesis by (rule at_other)
  qed
  have comb: "combined_schema root st1 n = combined_schema root st n" if "n \<in> set (x # xs)" for n
  proof (rule combined_schema_cong)
    show "parents (st1 ! n) = parents (st ! n)" by (rule par)
  next
    fix p
    assume "p \<in> set (parents (st ! n))"
    with that have "st1 ! p = st ! p" by (rule out)
    then show "output_schema (st1 ! p) = output_schema (st ! p)" by simp
  qed
  have res: "fit_result root st1 n = fit_result root st n" if "n \<in> set (x # xs)" for n
  proof (rule fit_result_cong)
    show "st1 ! n = st ! n \<or> st1 ! n = fit_result root st n"
      by (cases "n = x") (simp_all add: at_x at_other)
  next
    from that show "combined_schema root st1 n = combined_schema root st n" by (rule comb)
  qed
  have pre: "\<forall>n \<in> set xs. n < length st1 \<and> (\<forall>p \<in> set (parents (st1 ! n)). p \<notin> set xs)"
    using Cons.prems by (simp add: len1 par)
  from Cons.IH [OF pre, of "calls @ [(x, combined_schema root st x)]"]
  obtain st' where st':
    "fold (fit_node root) xs (st1, calls @ [(x, combined_schema root st x)])
       = (st', (calls @ [(x, combined_schema root st x)]) @ map (\<lambda>n. (n, combined_schema root st1 n)) xs)"
    "length st' = length st1"
    "\<forall>i. i \<notin> set xs \<longrightarrow> st' ! i = st1 ! i"
    "\<forall>i \<in> set xs. st' ! i = fit_result root st1 i"
    by blast
  have m: "map (\<lambda>n. (n, combined_schema root st1 n)) xs = map (\<lambda>n. (n, combined_schema root st n)) xs"
    by (rule map_cong) (simp_all add: comb)
  have f: "fold (fit_node root) (x # xs) (st, calls)
      = (st', calls @ map (\<lambda>n. (n, combined_schema root st n)) (x # xs))"
    using st'(1) by (simp add: fit_node_eq st1_def [symmetric] m)
  have a: "\<forall>i. i \<notin> set (x # xs) \<longrightarrow> st' ! i = st ! i"
    using st'(3) at_other by simp
  have b: "\<forall>i \<in> set (x # xs). st' ! i = fit_result root st i"
  proof
    fix i
    assume i: "i \<in> set (x # xs)"
    show "st' ! i = fit_result root st i"
    proof (cases "i \<in> set xs")
      case True
      with st'(4) have "st' ! i = fit_result root st1 i" by simp
      with res [OF i] show ?thesis by simp
    next
      case False
      with i have "i = x" by simp
      with False st'(3) at_x show ?thesis by simp
    qed
  qed
  from f st'(2) len1 a b show ?case
    by auto
qed

lemma fit_loop_unfold:
  "fit_loop root pending s =
     (if pending = [] then Inr s
      else if phase_of pending = [] then Inl RuntimeError
      else fit_loop root (remaining pending) (fold (fit_node root) (phase_of pending) s))"
  by (subst fit_loop.simps) (simp add: phase_of_def remaining_def Let_def)

lemma set_phase_of: "set (phase_of pending) = {n. (n, []) \<in> set pending}"
  by (auto simp: phase_of_def image_iff)

lemma phase_of_subset: "set (phase_of pending) \<subseteq> fst ` set pending"
  by (force simp: set_phase_of)

lemma keys_remaining: "fst ` set (remaining pending) = fst ` set pending - set (phase_of pending)"
  by (force simp: remaining_def)

lemma map_fst_remaining:
  "map fst (remaining pending) = filter (\<lambda>n. n \<notin> set (phase_of pending)) (map fst pending)"
  by (simp add: remaining_def filter_map comp_def case_prod_unfold)

lemma remaining_entry:
  "(n, deps) \<in> set (remaining pending) \<longleftrightarrow>
     n \<notin> set (phase_of pending) \<and>
     (\<exists>deps0. (n, deps0) \<in> set pending \<and> deps = filter (\<lambda>d. d \<notin> set (phase_of pending)) deps0)"
  by (auto simp: remaining_def image_iff)

lemma loop_inv_phase:
  assumes "loop_inv st pending"
  shows "\<forall>n \<in> set (phase_of pending).
           n < length st \<and> (\<forall>p \<in> set (parents (st ! n)). p \<notin> fst ` set pending)"
proof
  fix n
  assume "n \<in> set (phase_of pending)"
  then have e: "(n, []) \<in> set pending" by (simp add: set_phase_of)
  with assms have "n < length st"
    and "\<forall>p \<in> set (parents (st ! n)). p \<in> fst ` set pending \<longrightarrow> p \<in> set []"
    unfolding loop_inv_def by blast+
  then show "n < length st \<and> (\<forall>p \<in> set (parents (st ! n)). p \<notin> fst ` set pending)"
    by simp
qed

lemma loop_inv_remaining:
  assumes inv: "loop_inv st pending"
    and len: "length st' = length st"
    and par: "\<And>n. parents (st' ! n) = parents (st ! n)"
  shows "loop_inv st' (remaining pending)"
  unfolding loop_inv_def
proof (intro conjI ballI)
  from inv have "distinct (map fst pending)" by (simp add: loop_inv_def)
  then show "distinct (map fst (remaining pending))"
    by (simp add: map_fst_remaining)
next
  fix e
  assume e: "e \<in> set (remaining pending)"
  obtain n deps where nd: "e = (n, deps)" by (cases e)
  from e nd obtain deps0 where d0: "n \<notin> set (phase_of pending)" "(n, deps0) \<in> set pending"
      "deps = filter (\<lambda>d. d \<notin> set (phase_of pending)) deps0"
    by (auto simp: remaining_entry)
  from inv d0(2) have n: "n < length st"
    and p0: "\<forall>p \<in> set (parents (st ! n)). p \<in> fst ` set pending \<longrightarrow> p \<in> set deps0"
    unfolding loop_inv_def by blast+
  have "\<forall>p \<in> set (parents (st' ! n)). p \<in> fst ` set (remaining pending) \<longrightarrow> p \<in> set deps"
    using p0 d0(3) by (auto simp: par keys_remaining)
  with n len nd
  show "case e of (n, deps) \<Rightarrow>
          n < length st' \<and>
          (\<forall>p \<in> set (parents (st' ! n)). p \<in> fst ` set (remaining pending) \<longrightarrow> p \<in> set deps)"
    by simp
qed

lemma length_remaining:
  assumes "phase_of pending \<noteq> []"
  shows "length (remaining pending) < length pending"
proof -
  from assms obtain n where n: "n \<in> set (phase_of pending)"
    by (cases "phase_of pending") auto
  then have e: "(n, []) \<in> set pending"
    by (simp add: set_phase_of)
  have "\<not> (case (n, []) of (node, deps) \<Rightarrow> node \<notin> set (phase_of pending))"
    using n by simp
  with e have "length (filter (\<lambda>(node, deps). node \<notin> set (phase_of pending)) pending) < length pending"
    by (rule length_filter_less)
  then show ?thesis
    by (simp add: remaining_def)
qed

lemma phase_of_filter:
  assumes "distinct (map fst pending)"
  shows "phase_of pending = filter (\<lambda>n. n \<in> set (phase_of pending)) (map fst pending)"
proof -
  define ph where "ph = phase_of pending"
  have eq: "filter (\<lambda>(node, deps). deps = []) pending = filter (\<lambda>e. fst e \<in> set ph) pending"
  proof (rule filter_cong [OF refl])
    fix e
    assume e: "e \<in> set pending"
    obtain n deps where nd: "e = (n, deps)" by (cases e)
    have "deps = [] \<longleftrightarrow> (n, []) \<in> set pending"
    proof
      assume "deps = []"
      with e nd show "(n, []) \<in> set pending" by simp
    next
      assume "(n, []) \<in> set pending"
      with assms e nd show "deps = []"
        using eq_key_imp_eq_value [of pending n deps "[]"] by simp
    qed
    with nd show "(case e of (node, deps) \<Rightarrow> deps = []) = (fst e \<in> set ph)"
      by (simp add: ph_def set_phase_of)
  qed
  have "phase_of pending = map fst (filter (\<lambda>(node, deps). deps = []) pending)"
    by (simp add: phase_of_def)
  also have "\<dots> = map fst (filter (\<lambda>e. fst e \<in> set ph) pending)"
    by (simp only: eq)
  also have "\<dots> = filter (\<lambda>n. n \<in> set ph) (map fst pending)"
    by (simp add: filter_map comp_def)
  finally show ?thesis
    by (simp only: ph_def)
qed

lemma mset_phase_remaining:
  assumes "distinct (map fst pending)"
  shows "mset (phase_of pending) + mset (map fst (remaining pending)) = mset (map fst pending)"
proof -
  have "mset (phase_of pending) = filter_mset (\<lambda>n. n \<in> set (phase_of pending)) (mset (map fst pending))"
    using phase_of_filter [OF assms] by (metis mset_filter)
  moreover have "mset (map fst (remaining pending))
      = filter_mset (\<lambda>n. \<not> n \<in> set (phase_of pending)) (mset (map fst pending))"
    by (simp add: map_fst_remaining)
  ultimately show ?thesis
    using multiset_partition [of "mset (map fst pending)" "\<lambda>n. n \<in> set (phase_of pending)"]
    by simp
qed

lemma fit_loop_result:
  assumes "loop_inv st pending"
    and "fit_loop root pending (st, calls) = Inr (st', calls')"
  shows "length st' = length st
       \<and> (\<forall>i. structure_of (st' ! i) = structure_of (st ! i))
       \<and> (\<forall>i. i \<notin> fst ` set pending \<longrightarrow> st' ! i = st ! i)
       \<and> (\<forall>i \<in> fst ` set pending. st' ! i = fit_result root st' i)
       \<and> (\<exists>new. calls' = calls @ new \<and> mset (map fst new) = mset (map fst pending)
                 \<and> (\<forall>(n, arg) \<in> set new. arg = combined_schema root st' n))"
  using assms
proof (induction "length pending" arbitrary: pending st calls rule: less_induct)
  case less
  have u: "(if pending = [] then Inr (st, calls)
      else if phase_of pending = [] then Inl RuntimeError
      else fit_loop root (remaining pending) (fold (fit_node root) (phase_of pending) (st, calls)))
     = Inr (st', calls')"
    by (rule trans [OF fit_loop_unfold [symmetric] less.prems(2)])
  show ?case
  proof (cases "pending = []")
    case True
    with u have "st' = st" "calls' = calls"
      by simp_all
    with True show ?thesis
      by simp
  next
    case False
    define ph where "ph = phase_of pending"
    have ph_ne: "phase_of pending \<noteq> []"
    proof
      assume "phase_of pending = []"
      with False u show False
        by simp
    qed
    note phase = loop_inv_phase [OF less.prems(1)]
    have ok: "\<forall>n \<in> set (phase_of pending).
        n < length st \<and> (\<forall>p \<in> set (parents (st ! n)). p \<notin> set (phase_of pending))"
      using phase phase_of_subset [of pending] by blast
    from fold_fit_node [OF ok, of root calls] obtain st1 where st1:
      "fold (fit_node root) (phase_of pending) (st, calls)
         = (st1, calls @ map (\<lambda>n. (n, combined_schema root st n)) (phase_of pending))"
      "length st1 = length st"
      "\<forall>i. i \<notin> set (phase_of pending) \<longrightarrow> st1 ! i = st ! i"
      "\<forall>i \<in> set (phase_of pending). st1 ! i = fit_result root st i"
      by blast
    define calls1 where
      "calls1 = calls @ map (\<lambda>n. (n, combined_schema root st n)) (phase_of pending)"
    have struct1: "structure_of (st1 ! i) = structure_of (st ! i)" for i
      using st1(3,4) by (cases "i \<in> set (phase_of pending)") simp_all
    have par1: "parents (st1 ! n) = parents (st ! n)" for n
      using structure_of_fields [OF struct1 [of n]] by simp
    have inv1: "loop_inv st1 (remaining pending)"
      using less.prems(1) st1(2) par1 by (rule loop_inv_remaining)
    have run: "fit_loop root (remaining pending) (st1, calls1) = Inr (st', calls')"
      using u False ph_ne st1(1)
      by (simp add: calls1_def)
    from less.hyps [OF length_remaining [OF ph_ne] inv1 run]
    have ih: "length st' = length st1"
      "\<forall>i. structure_of (st' ! i) = structure_of (st1 ! i)"
      "\<forall>i. i \<notin> fst ` set (remaining pending) \<longrightarrow> st' ! i = st1 ! i"
      "\<forall>i \<in> fst ` set (remaining pending). st' ! i = fit_result root st' i"
      "\<exists>new. calls' = calls1 @ new \<and> mset (map fst new) = mset (map fst (remaining pending))
                 \<and> (\<forall>(n, arg) \<in> set new. arg = combined_schema root st' n)"
      by blast+
    have g1: "length st' = length st"
      using ih(1) st1(2) by simp
    have g2: "structure_of (st' ! i) = structure_of (st ! i)" for i
      using ih(2) struct1 by simp
    have g3: "st' ! i = st ! i" if "i \<notin> fst ` set pending" for i
    proof -
      from that have "i \<notin> fst ` set (remaining pending)" "i \<notin> set (phase_of pending)"
        using phase_of_subset [of pending] by (auto simp: keys_remaining)
      with ih(3) st1(3) show ?thesis by simp
    qed
    have in_phase: "st' ! i = fit_result root st i
        \<and> combined_schema root st' i = combined_schema root st i"
      if i: "i \<in> set (phase_of pending)" for i
    proof -
      from i have "i \<notin> fst ` set (remaining pending)"
        by (simp add: keys_remaining)
      with ih(3) st1(4) i have a: "st' ! i = fit_result root st i" by simp
      have b: "combined_schema root st' i = combined_schema root st i"
      proof (rule combined_schema_cong)
        show "parents (st' ! i) = parents (st ! i)"
          using structure_of_fields [OF g2 [of i]] by simp
      next
        fix p
        assume "p \<in> set (parents (st ! i))"
        with phase i have "p \<notin> fst ` set pending" by blast
        then have "st' ! p = st ! p" by (rule g3)
        then show "output_schema (st' ! p) = output_schema (st ! p)" by simp
      qed
      from a b show ?thesis by simp
    qed
    have g4: "st' ! i = fit_result root st' i" if i: "i \<in> fst ` set pending" for i
    proof (cases "i \<in> set (phase_of pending)")
      case True
      from in_phase [OF True] have a: "st' ! i = fit_result root st i"
        and b: "combined_schema root st' i = combined_schema root st i" by simp_all
      have "fit_result root st' i = fit_result root st i"
        by (rule fit_result_cong) (simp_all add: a b)
      with a show ?thesis by simp
    next
      case False
      with i have "i \<in> fst ` set (remaining pending)"
        by (simp add: keys_remaining)
      with ih(4) show ?thesis by blast
    qed
    from ih(5) obtain new1 where new1: "calls' = calls1 @ new1"
      "mset (map fst new1) = mset (map fst (remaining pending))"
      "\<forall>(n, arg) \<in> set new1. arg = combined_schema root st' n"
      by blast
    define new where
      "new = map (\<lambda>n. (n, combined_schema root st n)) (phase_of pending) @ new1"
    have c1: "calls' = calls @ new"
      using new1(1) by (simp add: calls1_def new_def)
    have dist: "distinct (map fst pending)"
      using less.prems(1) by (simp add: loop_inv_def)
    have "map fst new = phase_of pending @ map fst new1"
      by (simp add: new_def comp_def)
    then have c2: "mset (map fst new) = mset (map fst pending)"
      using new1(2) mset_phase_remaining [OF dist] by simp
    have c3: "\<forall>(n, arg) \<in> set new. arg = combined_schema root st' n"
    proof (clarify)
      fix n arg
      assume "(n, arg) \<in> set new"
      then consider "n \<in> set (phase_of pending)" "arg = combined_schema root st n"
        | "(n, arg) \<in> set new1"
        by (auto simp: new_def)
      then show "arg = combined_schema root st' n"
      proof cases
        case 1
        with in_phase [OF 1(1)] show ?thesis by simp
      next
        case 2
        with new1(3) show ?thesis by blast
      qed
    qed
    from g1 g2 g3 g4 c1 c2 c3 show ?thesis
      by blast
  qed
qed

section \<open>Progress, failure and order of the loop\<close>

lemma fit_schema_unfold:
  "fit_schema rank root st g =
     (case fit_loop root (initial_pending rank st g) (st, []) of
        Inl e \<Rightarrow> Inl e
      | Inr (st', calls) \<Rightarrow>
          Inr (st',
               g\<lparr>graph_input_schema :=
                    Some (filter (\<lambda>(name, schema). name \<in> set (Graph_input_columns st' g)) root),
                 graph_output_schema := output_schema (st' ! output_node g)\<rparr>,
               calls))"
  by (simp add: fit_schema_def initial_pending_def Let_def)

lemma set_get_schemaless_nodes:
  "set (get_schemaless_nodes st ns) = {n \<in> reachable st ns. input_schema (st ! n) = None}"
  by (auto simp: get_schemaless_nodes_def set_iter_nodes)

lemma distinct_get_schemaless_nodes: "distinct (get_schemaless_nodes st ns)"
  by (simp add: get_schemaless_nodes_def distinct_iter_nodes)

lemma map_fst_initial_pending:
  "map fst (initial_pending rank st g) = sort_key rank (get_schemaless_nodes st [output_node g])"
  by (simp add: initial_pending_def comp_def)

lemma keys_initial_pending:
  "fst ` set (initial_pending rank st g)
     = {n \<in> reachable st [output_node g]. input_schema (st ! n) = None}"
proof -
  have "fst ` set (initial_pending rank st g) = set (map fst (initial_pending rank st g))"
    by simp
  also have "\<dots> = set (get_schemaless_nodes st [output_node g])"
    by (simp only: map_fst_initial_pending set_sort)
  finally show ?thesis
    by (simp add: set_get_schemaless_nodes)
qed

lemma initial_pending_entry:
  "(n, deps) \<in> set (initial_pending rank st g) \<Longrightarrow>
     n \<in> reachable st [output_node g] \<and> input_schema (st ! n) = None \<and>
     deps = get_schemaless_nodes st (parents_with_dependencies (st ! n))"
  by (auto simp: initial_pending_def set_get_schemaless_nodes)

lemma loop_inv_initial: "loop_inv st (initial_pending rank st g)"
  unfolding loop_inv_def
proof (intro conjI ballI)
  show "distinct (map fst (initial_pending rank st g))"
    by (simp only: map_fst_initial_pending distinct_sort distinct_get_schemaless_nodes)
next
  fix e
  assume e: "e \<in> set (initial_pending rank st g)"
  obtain n deps where nd: "e = (n, deps)" by (cases e)
  from e nd have n: "n \<in> reachable st [output_node g]"
    and deps: "deps = get_schemaless_nodes st (parents_with_dependencies (st ! n))"
    using initial_pending_entry [of n deps rank st g] by simp_all
  from n have len: "n < length st" by (rule reachable_range)
  have "p \<in> set deps" if p: "p \<in> set (parents (st ! n))" "p \<in> fst ` set (initial_pending rank st g)" for p
  proof -
    from p(2) have pr: "p \<in> reachable st [output_node g]" and pn: "input_schema (st ! p) = None"
      by (simp_all add: keys_initial_pending)
    from pr have "p < length st" by (rule reachable_range)
    moreover from p(1) have "p \<in> set (parents_with_dependencies (st ! n))"
      by (simp add: parents_with_dependencies_def)
    ultimately have "p \<in> reachable st (parents_with_dependencies (st ! n))"
      by (simp add: reachable_root)
    with pn show ?thesis
      by (simp add: deps set_get_schemaless_nodes)
  qed
  with len nd show "case e of (n, deps) \<Rightarrow>
      n < length st \<and>
      (\<forall>p \<in> set (parents (st ! n)). p \<in> fst ` set (initial_pending rank st g) \<longrightarrow> p \<in> set deps)"
    by simp
qed

lemma blocked_within_remaining:
  assumes "blocked_within R pending"
  shows "blocked_within R (remaining pending)"
  unfolding blocked_within_def
proof (intro ballI)
  fix e
  assume e: "e \<in> set (remaining pending)"
  obtain n deps where nd: "e = (n, deps)" by (cases e)
  from e nd obtain deps0 where d0: "(n, deps0) \<in> set pending"
      "deps = filter (\<lambda>d. d \<notin> set (phase_of pending)) deps0"
    by (auto simp: remaining_entry)
  from assms d0(1) have "set deps0 \<subseteq> fst ` set pending \<inter> R n"
    unfolding blocked_within_def by blast
  with d0(2) have "set deps \<subseteq> fst ` set (remaining pending) \<inter> R n"
    by (auto simp: keys_remaining)
  with nd show "case e of (n, deps) \<Rightarrow> set deps \<subseteq> fst ` set (remaining pending) \<inter> R n"
    by simp
qed

lemma phase_nonempty:
  assumes ne: "pending \<noteq> []"
    and bl: "blocked_within R pending"
    and irr: "\<forall>n \<in> fst ` set pending. n \<notin> R n"
    and tr: "\<forall>n \<in> fst ` set pending. \<forall>m \<in> R n. R m \<subseteq> R n"
  shows "phase_of pending \<noteq> []"
proof -
  define K where "K = fst ` set pending"
  define w where "w = (\<lambda>n. card (R n \<inter> K))"
  have finK: "finite K" by (simp add: K_def)
  from ne have "w ` K \<noteq> {}" by (cases pending) (auto simp: K_def)
  moreover have "finite (w ` K)" using finK by simp
  ultimately obtain v where v: "v \<in> w ` K" "\<forall>x \<in> w ` K. \<not> x < v"
    using ex_min_if_finite [of "w ` K"] by blast
  then obtain n where n: "n \<in> K" "w n = v" by blast
  then obtain deps where e: "(n, deps) \<in> set pending"
    by (auto simp: K_def)
  have "deps = []"
  proof (rule ccontr)
    assume "deps \<noteq> []"
    then obtain m where m: "m \<in> set deps" by (cases deps) auto
    from bl e have "set deps \<subseteq> K \<inter> R n"
      unfolding blocked_within_def K_def by blast
    with m have mK: "m \<in> K" and mR: "m \<in> R n" by auto
    from tr n(1) mR have sub: "R m \<subseteq> R n" unfolding K_def by blast
    from irr mK have "m \<notin> R m" unfolding K_def by blast
    with mK mR sub have "R m \<inter> K \<subset> R n \<inter> K" by blast
    moreover have "finite (R n \<inter> K)" using finK by simp
    ultimately have "w m < w n"
      unfolding w_def by (rule psubset_card_mono [rotated])
    with v(2) n(2) mK show False by blast
  qed
  with e have "n \<in> set (phase_of pending)"
    by (simp add: set_phase_of)
  then show ?thesis by auto
qed

lemma fit_loop_succeeds:
  assumes "blocked_within R pending"
    and "\<forall>n \<in> fst ` set pending. n \<notin> R n"
    and "\<forall>n \<in> fst ` set pending. \<forall>m \<in> R n. R m \<subseteq> R n"
  shows "\<exists>s'. fit_loop root pending s = Inr s'"
  using assms
proof (induction "length pending" arbitrary: pending s rule: less_induct)
  case less
  show ?case
  proof (cases "pending = []")
    case True
    then show ?thesis
      by (subst fit_loop_unfold) simp
  next
    case False
    from phase_nonempty [OF False less.prems] have ph: "phase_of pending \<noteq> []" .
    have sub: "fst ` set (remaining pending) \<subseteq> fst ` set pending"
      by (auto simp: keys_remaining)
    have "\<exists>s'. fit_loop root (remaining pending) (fold (fit_node root) (phase_of pending) s) = Inr s'"
    proof (rule less.hyps)
      show "length (remaining pending) < length pending"
        using ph by (rule length_remaining)
      show "blocked_within R (remaining pending)"
        using less.prems(1) by (rule blocked_within_remaining)
      show "\<forall>n \<in> fst ` set (remaining pending). n \<notin> R n"
        using less.prems(2) sub by blast
      show "\<forall>n \<in> fst ` set (remaining pending). \<forall>m \<in> R n. R m \<subseteq> R n"
        using less.prems(3) sub by blast
    qed
    with False ph show ?thesis
      by (subst fit_loop_unfold) simp
  qed
qed

lemma fit_loop_self_blocked:
  assumes "distinct (map fst pending)"
    and "(n, deps) \<in> set pending"
    and "n \<in> set deps"
  shows "fit_loop root pending s = Inl RuntimeError"
  using assms
proof (induction "length pending" arbitrary: pending s deps rule: less_induct)
  case less
  from less.prems(2) have ne: "pending \<noteq> []" by auto
  show ?case
  proof (cases "phase_of pending = []")
    case True
    with ne show ?thesis
      by (subst fit_loop_unfold) simp
  next
    case False
    have nph: "n \<notin> set (phase_of pending)"
    proof
      assume "n \<in> set (phase_of pending)"
      then have "(n, []) \<in> set pending" by (simp add: set_phase_of)
      with less.prems(1,2) have "deps = []"
        using eq_key_imp_eq_value [of pending n deps "[]"] by simp
      with less.prems(3) show False by simp
    qed
    have "fit_loop root (remaining pending) (fold (fit_node root) (phase_of pending) s)
        = Inl RuntimeError"
    proof (rule less.hyps)
      show "length (remaining pending) < length pending"
        using False by (rule length_remaining)
      show "distinct (map fst (remaining pending))"
        using less.prems(1) by (simp add: map_fst_remaining)
      show "(n, filter (\<lambda>d. d \<notin> set (phase_of pending)) deps) \<in> set (remaining pending)"
        using less.prems(2) nph by (auto simp: remaining_entry)
      show "n \<in> set (filter (\<lambda>d. d \<notin> set (phase_of pending)) deps)"
        using less.prems(3) nph by simp
    qed
    with ne False show ?thesis
      by (subst fit_loop_unfold) simp
  qed
qed

lemma fit_loop_stuck:
  assumes "pending \<noteq> []" and "\<forall>(n, deps) \<in> set pending. deps \<noteq> []"
  shows "fit_loop root pending s = Inl RuntimeError"
proof -
  from assms(2) have "set (phase_of pending) = {}"
    by (auto simp: set_phase_of)
  then have "phase_of pending = []" by simp
  with assms(1) show ?thesis
    by (subst fit_loop_unfold) simp
qed

lemma loop_inv_mset:
  assumes "mset pending1 = mset pending2" and "loop_inv st pending1"
  shows "loop_inv st pending2"
proof -
  from assms(1) have sets: "set pending1 = set pending2"
    by (rule mset_eq_setD)
  from assms(1) have "mset (map fst pending1) = mset (map fst pending2)"
    by (metis mset_map)
  then have "distinct (map fst pending1) \<longleftrightarrow> distinct (map fst pending2)"
    by (rule mset_eq_imp_distinct_iff)
  with assms(2) sets show ?thesis
    by (simp add: loop_inv_def)
qed

lemma mset_remaining:
  assumes "mset pending1 = mset pending2"
  shows "mset (remaining pending1) = mset (remaining pending2)"
proof -
  from assms have sets: "set pending1 = set pending2"
    by (rule mset_eq_setD)
  then have ph: "set (phase_of pending1) = set (phase_of pending2)"
    by (simp add: set_phase_of)
  define f where "f = (\<lambda>(node :: nat, deps :: nat list).
      (node, filter (\<lambda>d. d \<notin> set (phase_of pending2)) deps))"
  define P where "P = (\<lambda>(node :: nat, deps :: nat list). node \<notin> set (phase_of pending2))"
  have "remaining pending1 = map f (filter P pending1)"
    by (simp add: remaining_def ph f_def P_def)
  moreover have "remaining pending2 = map f (filter P pending2)"
    by (simp add: remaining_def f_def P_def)
  ultimately show ?thesis
    using assms by (metis mset_filter mset_map)
qed

lemma fold_fit_node_set:
  assumes ok: "\<forall>n \<in> set ph1. n < length st \<and> (\<forall>p \<in> set (parents (st ! n)). p \<notin> set ph1)"
    and eq: "set ph1 = set ph2"
  shows "fst (fold (fit_node root) ph1 (st, c1)) = fst (fold (fit_node root) ph2 (st, c2))"
proof -
  from ok eq have ok2: "\<forall>n \<in> set ph2. n < length st \<and> (\<forall>p \<in> set (parents (st ! n)). p \<notin> set ph2)"
    by simp
  from fold_fit_node [OF ok, of root c1] obtain st1 where st1:
    "fst (fold (fit_node root) ph1 (st, c1)) = st1" "length st1 = length st"
    "\<forall>i. i \<notin> set ph1 \<longrightarrow> st1 ! i = st ! i" "\<forall>i \<in> set ph1. st1 ! i = fit_result root st i"
    by force
  from fold_fit_node [OF ok2, of root c2] obtain st2 where st2:
    "fst (fold (fit_node root) ph2 (st, c2)) = st2" "length st2 = length st"
    "\<forall>i. i \<notin> set ph2 \<longrightarrow> st2 ! i = st ! i" "\<forall>i \<in> set ph2. st2 ! i = fit_result root st i"
    by force
  have "st1 = st2"
  proof (rule nth_equalityI)
    show "length st1 = length st2" using st1(2) st2(2) by simp
  next
    fix i
    show "st1 ! i = st2 ! i"
      using st1(3,4) st2(3,4) eq by (cases "i \<in> set ph1") simp_all
  qed
  with st1(1) st2(1) show ?thesis by simp
qed

lemma fit_loop_perm:
  assumes "mset pending1 = mset pending2" and "loop_inv st pending1"
  shows "map_sum id fst (fit_loop root pending1 (st, c1))
       = map_sum id fst (fit_loop root pending2 (st, c2))"
  using assms
proof (induction "length pending1" arbitrary: pending1 pending2 st c1 c2 rule: less_induct)
  case less
  from less.prems(1) have sets: "set pending1 = set pending2"
    by (rule mset_eq_setD)
  then have ph: "set (phase_of pending1) = set (phase_of pending2)"
    by (simp add: set_phase_of)
  show ?case
  proof (cases "pending1 = []")
    case True
    with less.prems(1) have "pending2 = []" by simp
    with True show ?thesis
      by (subst (1 2) fit_loop_unfold) simp
  next
    case False
    with less.prems(1) have ne2: "pending2 \<noteq> []" by auto
    show ?thesis
    proof (cases "phase_of pending1 = []")
      case True
      with ph have "phase_of pending2 = []" by simp
      with True False ne2 show ?thesis
        by (subst (1 2) fit_loop_unfold) simp
    next
      case ph1: False
      with ph have ph2: "phase_of pending2 \<noteq> []" by auto
      note phase = loop_inv_phase [OF less.prems(2)]
      have ok: "\<forall>n \<in> set (phase_of pending1).
          n < length st \<and> (\<forall>p \<in> set (parents (st ! n)). p \<notin> set (phase_of pending1))"
        using phase phase_of_subset [of pending1] by blast
      obtain st1 k1 where r1: "fold (fit_node root) (phase_of pending1) (st, c1) = (st1, k1)"
        by (cases "fold (fit_node root) (phase_of pending1) (st, c1)")
      obtain st2 k2 where r2: "fold (fit_node root) (phase_of pending2) (st, c2) = (st2, k2)"
        by (cases "fold (fit_node root) (phase_of pending2) (st, c2)")
      from fold_fit_node_set [OF ok ph, of root c1 c2] r1 r2 have same: "st2 = st1"
        by simp
      from fold_fit_node [OF ok, of root c1] r1
      have len1: "length st1 = length st"
        and at1: "\<forall>i. i \<notin> set (phase_of pending1) \<longrightarrow> st1 ! i = st ! i"
          "\<forall>i \<in> set (phase_of pending1). st1 ! i = fit_result root st i"
        by auto
      have par1: "parents (st1 ! n) = parents (st ! n)" for n
        using at1 by (cases "n \<in> set (phase_of pending1)") simp_all
      have inv1: "loop_inv st1 (remaining pending1)"
        using less.prems(2) len1 par1 by (rule loop_inv_remaining)
      have "map_sum id fst (fit_loop root (remaining pending1) (st1, k1))
          = map_sum id fst (fit_loop root (remaining pending2) (st1, k2))"
        using length_remaining [OF ph1] mset_remaining [OF less.prems(1)] inv1
        by (rule less.hyps)
      moreover have "fit_loop root pending1 (st, c1) = fit_loop root (remaining pending1) (st1, k1)"
        using False ph1 r1 by (subst fit_loop_unfold) simp
      moreover have "fit_loop root pending2 (st, c2) = fit_loop root (remaining pending2) (st1, k2)"
        using ne2 ph2 r2 same by (subst fit_loop_unfold) simp
      ultimately show ?thesis by simp
    qed
  qed
qed

section \<open>Compatibility check and export\<close>

lemma expected_dtype_Nil: "expected_dtype f [] k = None"
  by (simp add: expected_dtype_def)

lemma expected_dtype_Cons:
  "expected_dtype f (c # cs) k =
     (case expected_dtype f cs k of
        Some t \<Rightarrow> Some t
      | None \<Rightarrow> if column_name c = k then Some (f (data_type c)) else None)"
  by (auto simp: expected_dtype_def map_add_def split: option.splits)

lemma override_dtype_lookup:
  "map_of (fst (override_dtype f c (dts, ws))) k =
     (if column_name c = k \<and> map_of dts k \<noteq> None then Some (f (data_type c)) else map_of dts k)"
  by (auto simp: override_dtype_def Let_def update_conv' split: option.splits)

lemma override_dtype_keys:
  "map fst (fst (override_dtype f c (dts, ws))) = map fst dts"
  by (auto simp: override_dtype_def Let_def update_keys map_of_eq_None_iff split: option.splits)
     (metis domI dom_map_of_conv_image_fst image_set)

lemma fold_override_lookup:
  "map_of (fst (fold (override_dtype f) inputs (dts, ws))) k =
     (case map_of dts k of
        None \<Rightarrow> None
      | Some d \<Rightarrow> (case expected_dtype f inputs k of None \<Rightarrow> Some d | Some t \<Rightarrow> Some t))"
proof (induction inputs arbitrary: dts ws)
  case Nil
  then show ?case by (simp add: expected_dtype_Nil split: option.splits)
next
  case (Cons c cs)
  obtain dts1 ws1 where step: "override_dtype f c (dts, ws) = (dts1, ws1)"
    by (cases "override_dtype f c (dts, ws)")
  have l1: "map_of dts1 k =
     (if column_name c = k \<and> map_of dts k \<noteq> None then Some (f (data_type c)) else map_of dts k)"
    using override_dtype_lookup [of f c dts ws k] step by simp
  show ?case
    using Cons.IH [of dts1 ws1] step l1
    by (auto simp: expected_dtype_Cons split: option.splits)
qed

lemma fold_override_keys:
  "map fst (fst (fold (override_dtype f) inputs (dts, ws))) = map fst dts"
proof (induction inputs arbitrary: dts ws)
  case Nil
  then show ?case by simp
next
  case (Cons c cs)
  obtain dts1 ws1 where step: "override_dtype f c (dts, ws) = (dts1, ws1)"
    by (cases "override_dtype f c (dts, ws)")
  then have "map fst dts1 = map fst dts"
    using override_dtype_keys [of f c dts ws] by simp
  with Cons.IH [of dts1 ws1] step show ?case by simp
qed

lemma override_dtype_warnings_mono:
  "set ws \<subseteq> set (snd (override_dtype f c (dts, ws)))"
  by (auto simp: override_dtype_def Let_def split: option.splits)

lemma fold_override_warnings_mono:
  "set ws \<subseteq> set (snd (fold (override_dtype f) inputs (dts, ws)))"
proof (induction inputs arbitrary: dts ws)
  case Nil
  then show ?case by simp
next
  case (Cons c cs)
  obtain dts1 ws1 where step: "override_dtype f c (dts, ws) = (dts1, ws1)"
    by (cases "override_dtype f c (dts, ws)")
  have "set ws \<subseteq> set ws1"
    using override_dtype_warnings_mono [of ws f c dts] step by simp
  moreover have "set ws1 \<subseteq> set (snd (fold (override_dtype f) cs (dts1, ws1)))"
    by (rule Cons.IH)
  ultimately show ?case using step by simp
qed

lemma fold_override_warnings_sound:
  "Warning t k d \<in> set (snd (fold (override_dtype f) inputs (dts, ws))) \<Longrightarrow>
     Warning t k d \<in> set ws \<or>
     (map_of dts k \<noteq> None \<and> d \<noteq> t \<and> (\<exists>c \<in> set inputs. column_name c = k \<and> f (data_type c) = t))"
proof (induction inputs arbitrary: dts ws)
  case Nil
  then show ?case by simp
next
  case (Cons c cs)
  obtain dts1 ws1 where step: "override_dtype f c (dts, ws) = (dts1, ws1)"
    by (cases "override_dtype f c (dts, ws)")
  have keys: "map_of dts1 k \<noteq> None \<longleftrightarrow> map_of dts k \<noteq> None"
    using override_dtype_lookup [of f c dts ws k] step by auto
  have new: "Warning t k d \<in> set ws1 \<Longrightarrow> Warning t k d \<in> set ws \<or>
      (map_of dts k \<noteq> None \<and> d \<noteq> t \<and> column_name c = k \<and> f (data_type c) = t)"
    using step by (auto simp: override_dtype_def Let_def split: option.splits if_splits)
  from Cons.prems step
  have "Warning t k d \<in> set (snd (fold (override_dtype f) cs (dts1, ws1)))"
    by simp
  from Cons.IH [OF this] keys new show ?case
    by auto
qed

lemma fold_override_warnings_complete:
  "map_of dts k = Some d \<Longrightarrow> expected_dtype f inputs k = Some t \<Longrightarrow> t \<noteq> d \<Longrightarrow>
     \<exists>t' d'. Warning t' k d' \<in> set (snd (fold (override_dtype f) inputs (dts, ws)))"
proof (induction inputs arbitrary: dts ws)
  case Nil
  then show ?case by (simp add: expected_dtype_Nil)
next
  case (Cons c cs)
  obtain dts1 ws1 where step: "override_dtype f c (dts, ws) = (dts1, ws1)"
    by (cases "override_dtype f c (dts, ws)")
  show ?case
  proof (cases "column_name c = k \<and> f (data_type c) \<noteq> d")
    case True
    with Cons.prems(1) step have "Warning (f (data_type c)) k d \<in> set ws1"
      by (auto simp: override_dtype_def Let_def)
    then have "Warning (f (data_type c)) k d \<in> set (snd (fold (override_dtype f) cs (dts1, ws1)))"
      using fold_override_warnings_mono [of ws1 f cs dts1] by blast
    with step show ?thesis by auto
  next
    case False
    have d1: "map_of dts1 k = Some d"
      using override_dtype_lookup [of f c dts ws k] step Cons.prems(1) False by auto
    have e1: "expected_dtype f cs k = Some t"
      using Cons.prems(2,3) False by (auto simp: expected_dtype_Cons split: option.splits if_splits)
    from Cons.IH [OF d1 e1 Cons.prems(3)] step show ?thesis by simp
  qed
qed

lemma fold_override_warnings_distinct:
  "distinct (map column_name inputs) \<Longrightarrow> c \<in> set inputs \<Longrightarrow>
   map_of dts (column_name c) = Some d \<Longrightarrow> d \<noteq> f (data_type c) \<Longrightarrow>
     Warning (f (data_type c)) (column_name c) d \<in> set (snd (fold (override_dtype f) inputs (dts, ws)))"
proof (induction inputs arbitrary: dts ws)
  case Nil
  then show ?case by simp
next
  case (Cons x xs)
  obtain dts1 ws1 where step: "override_dtype f x (dts, ws) = (dts1, ws1)"
    by (cases "override_dtype f x (dts, ws)")
  show ?case
  proof (cases "c = x")
    case True
    with Cons.prems(3,4) step have "Warning (f (data_type c)) (column_name c) d \<in> set ws1"
      by (auto simp: override_dtype_def Let_def)
    then show ?thesis
      using fold_override_warnings_mono [of ws1 f xs dts1] step by auto
  next
    case False
    with Cons.prems(2) have cx: "c \<in> set xs" by simp
    with Cons.prems(1) have ne: "column_name x \<noteq> column_name c" by force
    have d1: "map_of dts1 (column_name c) = Some d"
      using override_dtype_lookup [of f x dts ws "column_name c"] step Cons.prems(3) ne by auto
    from Cons.prems(1) have "distinct (map column_name xs)" by simp
    from Cons.IH [OF this cx d1 Cons.prems(4)] step show ?thesis by simp
  qed
qed

lemma expected_dtype_SomeD:
  "expected_dtype f inputs k = Some t \<Longrightarrow> \<exists>c \<in> set inputs. column_name c = k \<and> f (data_type c) = t"
  by (auto simp: expected_dtype_def dest!: map_of_SomeD)

lemma map_of_schema_apply:
  "map_of (schema_apply s names) k = (if k \<in> set names then map_of s k else None)"
proof -
  have "map_of (fold (\<lambda>k acc. case map_of s k of None \<Rightarrow> acc | Some d \<Rightarrow> AList.update k d acc) names acc) k
      = (if k \<in> set names \<and> map_of s k \<noteq> None then map_of s k else map_of acc k)" for acc
    by (induction names arbitrary: acc) (auto simp: update_conv' split: option.splits)
  from this [of "[]"] show ?thesis
    by (auto simp: schema_apply_def)
qed

lemma schema_eq_iff: "schema_eq a b \<longleftrightarrow> map_of a = map_of b"
proof
  assume eq: "schema_eq a b"
  show "map_of a = map_of b"
  proof
    fix k
    show "map_of a k = map_of b k"
    proof (cases "k \<in> set (column_names a)")
      case True
      with eq show ?thesis by (auto simp: schema_eq_def list_all_iff)
    next
      case False
      with eq have "k \<notin> fst ` set a" "k \<notin> fst ` set b"
        by (auto simp: schema_eq_def column_names_def)
      then have "map_of a k = None" "map_of b k = None"
        by (simp_all add: map_of_eq_None_iff)
      then show ?thesis by simp
    qed
  qed
next
  assume eq: "map_of a = map_of b"
  then have "dom (map_of a) = dom (map_of b)" by simp
  then have "fst ` set a = fst ` set b" by (simp add: dom_map_of_conv_image_fst)
  with eq show "schema_eq a b"
    by (simp add: schema_eq_def column_names_def list_all_iff)
qed

text \<open>
  Claim C8. On a fitted graph, \<open>compute_output_schema\<close> raises an error exactly when the
  request schema projected onto the selector differs from the input schema of the
  workflow's graph; the error carries the column names of the request schema and of the
  workflow's input schema; otherwise the output schema of the workflow is returned. In both
  cases the operator is left as it was.
\<close>

theorem compute_output_schema_compat:
  assumes "graph_input_schema (workflow_graph (workflow self)) = Some gs"
  shows "(case fst (compute_output_schema self req sel) of
            Inl e \<Rightarrow> e = ValueError (column_names req) (column_names gs)
                     \<and> map_of (schema_apply req sel) \<noteq> map_of gs
          | Inr out \<Rightarrow> out = workflow_output_schema (workflow self)
                     \<and> map_of (schema_apply req sel) = map_of gs)
       \<and> (\<forall>k. map_of (schema_apply req sel) k = (if k \<in> set sel then map_of req k else None))
       \<and> snd (compute_output_schema self req sel) = self"
  using assms
  by (auto simp: compute_output_schema_def Let_def schema_eq_iff map_of_schema_apply)

theorem compute_output_schema_compat_witness:
  "graph_input_schema (workflow_graph (workflow example_workflow_op))
     = Some [(''age'', example_column ''int32'')]
   \<and> fst (compute_output_schema example_workflow_op
            [(''age'', example_column ''int32''), (''zip'', example_column ''str'')] [''age''])
     = Inr (Some [(''age'', example_column ''int32''), (''age_bucket'', example_column ''int64'')])
   \<and> fst (compute_output_schema example_workflow_op
            [(''age'', example_column ''int32''), (''zip'', example_column ''str'')] [''age'', ''zip''])
     = Inl (ValueError [''age'', ''zip''] [''age''])"
proof -
  have h: "graph_input_schema (workflow_graph (workflow example_workflow_op))
     = Some [(''age'', example_column ''int32'')]"
    by (simp add: example_workflow_op_def)
  have a: "map_of (schema_apply [(''age'', example_column ''int32''), (''zip'', example_column ''str'')] [''age''])
      = map_of [(''age'', example_column ''int32'')]"
    by (simp add: schema_apply_def)
  have b: "map_of (schema_apply [(''age'', example_column ''int32''), (''zip'', example_column ''str'')] [''age'', ''zip''])
      \<noteq> map_of [(''age'', example_column ''int32'')]"
    by (simp add: schema_apply_def fun_eq_iff)
  from compute_output_schema_compat [OF h,
      of "[(''age'', example_column ''int32''), (''zip'', example_column ''str'')]" "[''age'']"]
    a
  have 1: "fst (compute_output_schema example_workflow_op
            [(''age'', example_column ''int32''), (''zip'', example_column ''str'')] [''age''])
     = Inr (workflow_output_schema (workflow example_workflow_op))"
    by (auto split: sum.splits)
  from compute_output_schema_compat [OF h,
      of "[(''age'', example_column ''int32''), (''zip'', example_column ''str'')]" "[''age'', ''zip'']"]
    b
  have 2: "fst (compute_output_schema example_workflow_op
            [(''age'', example_column ''int32''), (''zip'', example_column ''str'')] [''age'', ''zip''])
     = Inl (ValueError [''age'', ''zip''] [''age''])"
    by (auto simp: column_names_def split: sum.splits)
  from h 1 2 show ?thesis
    by (simp add: workflow_output_schema_def example_workflow_op_def)
qed

lemma export_after_mkdir:
  assumes "mkdir env (path @ [export_name self]) fs = Inr fs1"
  shows "export env self path consumer_config version fs =
     (let pruned = remove_columns env (workflow self) (label_columns self);
          res = override_dtypes (triton_datatype_to_dtype env) consumer_config (output_dtypes pruned);
          exported = pruned\<lparr>output_dtypes := fst res\<rparr>
      in case save env exported (path @ [export_name self, str env version, export_name self]) fs1 of
           Inl e \<Rightarrow> (Inl e, fs1, snd res)
         | Inr fs2 \<Rightarrow>
             (case generate_nvtabular_config env exported (export_name self)
                     (path @ [export_name self]) self fs2 of
                Inl e \<Rightarrow> (Inl e, fs2, snd res)
              | Inr (config, fs3) \<Rightarrow> (Inr config, fs3, snd res)))"
  using assms by (simp add: export_def Let_def split_beta)

text \<open>
  Claim C9. Once the export directory is made: for a column the pruned workflow produces
  with a dtype other than the one the consumer expects, a warning is emitted, the workflow
  handed to \<open>save\<close> and to \<open>_generate_nvtabular_config\<close> has the consumer's dtype for the
  column, and \<open>export\<close> fails only if one of these two fails.
\<close>

theorem export_dtype_reconciliation:
  assumes "mkdir env (path @ [export_name self]) fs = Inr fs1"
    and "map_of (output_dtypes (remove_columns env (workflow self) (label_columns self))) k = Some d"
    and "expected_dtype (triton_datatype_to_dtype env) inputs k = Some t"
    and "t \<noteq> d"
  shows "\<exists>exported.
           map_of (output_dtypes exported) k = Some t
         \<and> (\<exists>t' d'. Warning t' k d' \<in> set (snd (snd (export env self path (Some inputs) version fs))))
         \<and> (distinct (map column_name inputs) \<longrightarrow>
              Warning t k d \<in> set (snd (snd (export env self path (Some inputs) version fs))))
         \<and> fst (export env self path (Some inputs) version fs) =
             (case save env exported (path @ [export_name self, str env version, export_name self]) fs1 of
                Inl e \<Rightarrow> Inl e
              | Inr fs2 \<Rightarrow>
                  (case generate_nvtabular_config env exported (export_name self)
                          (path @ [export_name self]) self fs2 of
                     Inl e \<Rightarrow> Inl e
                   | Inr (config, fs3) \<Rightarrow> Inr config))"
proof -
  define pruned where "pruned = remove_columns env (workflow self) (label_columns self)"
  define res where
    "res = fold (override_dtype (triton_datatype_to_dtype env)) inputs (output_dtypes pruned, [])"
  define exported where "exported = pruned\<lparr>output_dtypes := fst res\<rparr>"
  have ex: "export env self path (Some inputs) version fs =
     (case save env exported (path @ [export_name self, str env version, export_name self]) fs1 of
           Inl e \<Rightarrow> (Inl e, fs1, snd res)
         | Inr fs2 \<Rightarrow>
             (case generate_nvtabular_config env exported (export_name self)
                     (path @ [export_name self]) self fs2 of
                Inl e \<Rightarrow> (Inl e, fs2, snd res)
              | Inr (config, fs3) \<Rightarrow> (Inr config, fs3, snd res)))"
    unfolding export_after_mkdir [OF assms(1)] Let_def override_dtypes_def
      pruned_def res_def exported_def option.case
    by (rule refl)
  have ws: "snd (snd (export env self path (Some inputs) version fs)) = snd res"
    unfolding ex by (simp split: sum.splits prod.splits)
  have out: "fst (export env self path (Some inputs) version fs) =
             (case save env exported (path @ [export_name self, str env version, export_name self]) fs1 of
                Inl e \<Rightarrow> Inl e
              | Inr fs2 \<Rightarrow>
                  (case generate_nvtabular_config env exported (export_name self)
                          (path @ [export_name self]) self fs2 of
                     Inl e \<Rightarrow> Inl e
                   | Inr (config, fs3) \<Rightarrow> Inr config))"
    unfolding ex by (simp split: sum.splits prod.splits)
  have d: "map_of (output_dtypes pruned) k = Some d"
    using assms(2) by (simp add: pruned_def)
  have final: "map_of (output_dtypes exported) k = Some t"
    using fold_override_lookup [of "triton_datatype_to_dtype env" inputs "output_dtypes pruned" "[]" k]
      d assms(3)
    by (simp add: exported_def res_def)
  have w1: "\<exists>t' d'. Warning t' k d' \<in> set (snd res)"
    unfolding res_def by (rule fold_override_warnings_complete [OF d assms(3) assms(4)])
  have w2: "Warning t k d \<in> set (snd res)" if dist: "distinct (map column_name inputs)"
  proof -
    from expected_dtype_SomeD [OF assms(3)] obtain c
      where c: "c \<in> set inputs" "column_name c = k" "triton_datatype_to_dtype env (data_type c) = t"
      by blast
    from assms(4) c have ne: "d \<noteq> triton_datatype_to_dtype env (data_type c)" by simp
    from d c have dc: "map_of (output_dtypes pruned) (column_name c) = Some d" by simp
    from fold_override_warnings_distinct
      [of inputs c "output_dtypes pruned" d "triton_datatype_to_dtype env" "[]"] dist c dc ne
    show ?thesis
      by (simp add: res_def)
  qed
  from final w1 w2 out ws show ?thesis
    by auto
qed

theorem export_dtype_reconciliation_witness:
  "mkdir example_environment ([''models''] @ [export_name example_workflow_op]) (0::nat) = Inr 1
   \<and> map_of (output_dtypes (remove_columns example_environment (workflow example_workflow_op)
                (label_columns example_workflow_op))) ''age'' = Some ''int32''
   \<and> expected_dtype (triton_datatype_to_dtype example_environment)
         [\<lparr>column_name = ''age'', data_type = 11\<rparr>] ''age'' = Some ''float32''
   \<and> ''float32'' \<noteq> ''int32''
   \<and> Warning ''float32'' ''age'' ''int32''
        \<in> set (snd (snd (export example_environment example_workflow_op [''models'']
                 (Some [\<lparr>column_name = ''age'', data_type = 11\<rparr>]) 1 0)))
   \<and> fst (export example_environment example_workflow_op [''models'']
                 (Some [\<lparr>column_name = ''age'', data_type = 11\<rparr>]) 1 0)
       = Inr [(''age'', ''float32''), (''age_bucket'', ''int64'')]"
proof -
  have h1: "mkdir example_environment ([''models''] @ [export_name example_workflow_op]) (0::nat) = Inr 1"
    by (simp add: example_environment_def)
  have h2: "map_of (output_dtypes (remove_columns example_environment (workflow example_workflow_op)
                (label_columns example_workflow_op))) ''age'' = Some ''int32''"
    by (simp add: example_environment_def example_workflow_op_def)
  have h3: "expected_dtype (triton_datatype_to_dtype example_environment)
         [\<lparr>column_name = ''age'', data_type = 11\<rparr>] ''age'' = Some ''float32''"
    by (simp add: example_environment_def expected_dtype_def)
  have h4: "''float32'' \<noteq> ''int32''"
    by simp
  have dist: "distinct (map column_name [\<lparr>column_name = ''age'', data_type = 11\<rparr>])"
    by simp
  from export_dtype_reconciliation [OF h1 h2 h3 h4, of 1] dist
  have w: "Warning ''float32'' ''age'' ''int32''
        \<in> set (snd (snd (export example_environment example_workflow_op [''models'']
                 (Some [\<lparr>column_name = ''age'', data_type = 11\<rparr>]) 1 0)))"
    by blast
  have r: "fst (export example_environment example_workflow_op [''models'']
                 (Some [\<lparr>column_name = ''age'', data_type = 11\<rparr>]) 1 0)
       = Inr [(''age'', ''float32''), (''age_bucket'', ''int64'')]"
    by (simp add: export_def override_dtypes_def override_dtype_def example_environment_def
        example_workflow_op_def export_name_def Let_def)
  from h1 h2 h3 h4 w r show ?thesis
    by blast
qed

lemma override_dtypes_Some:
  "override_dtypes f (Some inputs) dts = fold (override_dtype f) inputs (dts, [])"
  by (simp add: override_dtypes_def)

lemma export_warnings:
  "snd (snd (export env self path consumer_config version fs)) = [] \<or>
   snd (snd (export env self path consumer_config version fs)) =
     snd (override_dtypes (triton_datatype_to_dtype env) consumer_config
            (output_dtypes (remove_columns env (workflow self) (label_columns self))))"
  by (simp add: export_def Let_def split_beta split: sum.splits)

text \<open>
  Claim C10. The reconciliation loop leaves the set of columns of \<open>output_dtypes\<close> as it
  is; a column of the consumer's configuration that the workflow does not produce changes
  nothing and raises no warning; and a dtype that the loop changes belongs to a column that
  both sides declare, with an expected dtype that differs from the one produced.
\<close>

theorem reconciliation_ignores_unproduced_columns:
  "map fst (fst (override_dtypes f (Some inputs) dts)) = map fst dts
   \<and> (map_of dts (column_name c) = None \<longrightarrow> override_dtype f c (dts, ws) = (dts, ws))
   \<and> (map_of dts k = None \<longrightarrow>
        map_of (fst (override_dtypes f (Some inputs) dts)) k = None
        \<and> (\<forall>t d. Warning t k d \<notin> set (snd (override_dtypes f (Some inputs) dts))))
   \<and> (map_of (fst (override_dtypes f (Some inputs) dts)) k \<noteq> map_of dts k \<longrightarrow>
        (\<exists>d t. map_of dts k = Some d \<and> expected_dtype f inputs k = Some t \<and> t \<noteq> d
               \<and> map_of (fst (override_dtypes f (Some inputs) dts)) k = Some t))
   \<and> (map_of (output_dtypes (remove_columns env (workflow self) (label_columns self))) k = None \<longrightarrow>
        (\<forall>t d. Warning t k d
           \<notin> set (snd (snd (export env self path (Some inputs) version fs)))))"
proof (intro conjI impI allI)
  show "map fst (fst (override_dtypes f (Some inputs) dts)) = map fst dts"
    by (simp add: override_dtypes_Some fold_override_keys)
next
  assume "map_of dts (column_name c) = None"
  then show "override_dtype f c (dts, ws) = (dts, ws)"
    by (simp add: override_dtype_def)
next
  assume "map_of dts k = None"
  then show "map_of (fst (override_dtypes f (Some inputs) dts)) k = None"
    by (simp add: override_dtypes_Some fold_override_lookup)
next
  fix t d
  assume n: "map_of dts k = None"
  show "Warning t k d \<notin> set (snd (override_dtypes f (Some inputs) dts))"
  proof
    assume "Warning t k d \<in> set (snd (override_dtypes f (Some inputs) dts))"
    then have "Warning t k d \<in> set (snd (fold (override_dtype f) inputs (dts, [])))"
      by (simp add: override_dtypes_Some)
    from fold_override_warnings_sound [OF this] n show False
      by simp
  qed
next
  assume ch: "map_of (fst (override_dtypes f (Some inputs) dts)) k \<noteq> map_of dts k"
  then show "\<exists>d t. map_of dts k = Some d \<and> expected_dtype f inputs k = Some t \<and> t \<noteq> d
               \<and> map_of (fst (override_dtypes f (Some inputs) dts)) k = Some t"
    by (auto simp: override_dtypes_Some fold_override_lookup split: option.splits)
next
  fix t d
  assume n: "map_of (output_dtypes (remove_columns env (workflow self) (label_columns self))) k = None"
  show "Warning t k d \<notin> set (snd (snd (export env self path (Some inputs) version fs)))"
  proof
    assume w: "Warning t k d \<in> set (snd (snd (export env self path (Some inputs) version fs)))"
    with export_warnings [of env self path "Some inputs" version fs]
    have "Warning t k d \<in> set (snd (fold (override_dtype (triton_datatype_to_dtype env)) inputs
            (output_dtypes (remove_columns env (workflow self) (label_columns self)), [])))"
      by (auto simp: override_dtypes_Some)
    from fold_override_warnings_sound [OF this] n show False
      by simp
  qed
qed

theorem reconciliation_ignores_unproduced_columns_witness:
  "map_of [(''age'', ''int32'')] (column_name \<lparr>column_name = ''zip'', data_type = 11\<rparr>) = None
   \<and> override_dtype (triton_datatype_to_dtype example_environment)
        \<lparr>column_name = ''zip'', data_type = 11\<rparr> ([(''age'', ''int32'')], [])
       = ([(''age'', ''int32'')], [])
   \<and> map_of [(''age'', ''int32'')] ''zip'' = None
   \<and> map_of (fst (override_dtypes (triton_datatype_to_dtype example_environment)
         (Some [\<lparr>column_name = ''zip'', data_type = 11\<rparr>, \<lparr>column_name = ''age'', data_type = 11\<rparr>])
         [(''age'', ''int32'')])) ''zip'' = None
   \<and> (\<forall>t d. Warning t ''zip'' d \<notin> set (snd (override_dtypes (triton_datatype_to_dtype example_environment)
         (Some [\<lparr>column_name = ''zip'', data_type = 11\<rparr>, \<lparr>column_name = ''age'', data_type = 11\<rparr>])
         [(''age'', ''int32'')])))
   \<and> map_of (fst (override_dtypes (triton_datatype_to_dtype example_environment)
         (Some [\<lparr>column_name = ''zip'', data_type = 11\<rparr>, \<lparr>column_name = ''age'', data_type = 11\<rparr>])
         [(''age'', ''int32'')])) ''age'' \<noteq> map_of [(''age'', ''int32'')] ''age''
   \<and> expected_dtype (triton_datatype_to_dtype example_environment)
         [\<lparr>column_name = ''zip'', data_type = 11\<rparr>, \<lparr>column_name = ''age'', data_type = 11\<rparr>] ''age''
       = Some ''float32''"
proof -
  let ?f = "triton_datatype_to_dtype example_environment"
  let ?zip = "\<lparr>column_name = ''zip'', data_type = 11\<rparr>"
  let ?inputs = "[?zip, \<lparr>column_name = ''age'', data_type = 11\<rparr>]"
  let ?dts = "[(''age'', ''int32'')]"
  have h1: "map_of ?dts (column_name ?zip) = None"
    by simp
  have h2: "map_of ?dts ''zip'' = None"
    by simp
  have h3: "map_of (fst (override_dtypes ?f (Some ?inputs) ?dts)) ''age'' \<noteq> map_of ?dts ''age''"
    by (simp add: override_dtypes_def override_dtype_def example_environment_def Let_def)
  note zip = reconciliation_ignores_unproduced_columns
    [of ?f ?inputs ?dts ?zip "[]" "''zip''" example_environment example_workflow_op "[''models'']" 1 "0::nat"]
  note age = reconciliation_ignores_unproduced_columns
    [of ?f ?inputs ?dts ?zip "[]" "''age''" example_environment example_workflow_op "[''models'']" 1 "0::nat"]
  from zip h1 have c1: "override_dtype ?f ?zip (?dts, []) = (?dts, [])"
    by blast
  from zip h2 have c2: "map_of (fst (override_dtypes ?f (Some ?inputs) ?dts)) ''zip'' = None"
    and c3: "\<forall>t d. Warning t ''zip'' d \<notin> set (snd (override_dtypes ?f (Some ?inputs) ?dts))"
    by blast+
  from age h3 have c4: "expected_dtype ?f ?inputs ''age'' = Some ''float32''"
    by (auto simp: override_dtypes_def override_dtype_def example_environment_def Let_def)
  from h1 h2 h3 c1 c2 c3 c4 show ?thesis
    by blast
qed

end
